theory Spec2Isabelle
  imports Main "HOL-Library.Multiset"
begin

section \<open>Keyed LSB steganography: a model of steganography.py\<close>

text \<open>
  The development follows \<^verbatim>\<open>steganography.py\<close> function by function.
  Python integers that occur in the program are never negative (code points, channel
  bytes, coordinates, list lengths, products of those) and are modelled as unbounded
  \<^typ>\<open>nat\<close>.  A Python \<^verbatim>\<open>str\<close> that holds text is a list of code points; a
  \<^verbatim>\<open>str\<close> that holds binary digits is a \<^typ>\<open>string\<close>.  Every exception the
  program can raise is a value of type \<open>error\<close>, and a function that can raise
  returns \<open>error + 'a\<close>.
\<close>

subsection \<open>Exceptions and Python list primitives\<close>

datatype error =
    ValueError
  | IndexError
  | TypeError
  | OverflowError
  | UnicodeEncodeError
  | UnicodeDecodeError
  | MessageSizeExceeded nat
    \<comment> \<open>\<^verbatim>\<open>ValueError(f"Message size exceeded by {size - capacity} bits")\<close>\<close>

definition bind :: "error + 'a \<Rightarrow> ('a \<Rightarrow> error + 'b) \<Rightarrow> error + 'b" where
  "bind m f = (case m of Inl e \<Rightarrow> Inl e | Inr x \<Rightarrow> f x)"

definition py_index :: "'a list \<Rightarrow> nat \<Rightarrow> error + 'a" where
  \<comment> \<open>\<^verbatim>\<open>xs[i]\<close> for \<open>i \<ge> 0\<close>\<close>
  "py_index xs i = (if i < length xs then Inr (xs ! i) else Inl IndexError)"

definition py_assign :: "'a list \<Rightarrow> nat \<Rightarrow> 'a \<Rightarrow> error + 'a list" where
  \<comment> \<open>\<^verbatim>\<open>xs[i] = v\<close> for \<open>i \<ge> 0\<close>\<close>
  "py_assign xs i v = (if i < length xs then Inr (xs[i := v]) else Inl IndexError)"

fun dict_set :: "('k \<times> 'v) list \<Rightarrow> 'k \<Rightarrow> 'v \<Rightarrow> ('k \<times> 'v) list" where
  \<comment> \<open>\<^verbatim>\<open>d[k] = v\<close> on an insertion-ordered dict\<close>
  "dict_set [] k v = [(k, v)]"
| "dict_set ((k', v') # d) k v =
     (if k' = k then (k', v) # d else (k', v') # dict_set d k v)"

definition dict_values :: "('k \<times> 'v) list \<Rightarrow> 'v list" where
  "dict_values d = map snd d"

subsection \<open>Binary digit strings: \<^verbatim>\<open>bin\<close>, \<^verbatim>\<open>zfill\<close>, \<^verbatim>\<open>int(s, 2)\<close>\<close>

definition bit_char :: "nat \<Rightarrow> char" where
  "bit_char d = (if d = 0 then CHR ''0'' else CHR ''1'')"

definition is_bit :: "char \<Rightarrow> bool" where
  "is_bit c \<longleftrightarrow> c = CHR ''0'' \<or> c = CHR ''1''"

function bin_digits :: "nat \<Rightarrow> string" where
  \<comment> \<open>\<^verbatim>\<open>bin(n)\<close> without its \<^verbatim>\<open>0b\<close> prefix\<close>
  "bin_digits n =
     (if n < 2 then [bit_char n] else bin_digits (n div 2) @ [bit_char (n mod 2)])"
  by pat_completeness auto
termination
  by (relation "measure (\<lambda>n. n)") auto

declare bin_digits.simps [simp del]

definition zfill :: "nat \<Rightarrow> string \<Rightarrow> string" where
  \<comment> \<open>\<^verbatim>\<open>s.zfill(w)\<close> on a string without sign\<close>
  "zfill w s = replicate (w - length s) CHR ''0'' @ s"

definition bits_value :: "string \<Rightarrow> nat" where
  "bits_value s = foldl (\<lambda>a c. 2 * a + (if c = CHR ''1'' then 1 else 0)) 0 s"

definition int_base2 :: "string \<Rightarrow> error + nat" where
  \<comment> \<open>\<^verbatim>\<open>int(s, 2)\<close> on strings of binary digits, the only strings the program
      passes; the empty string and any other character raise \<^verbatim>\<open>ValueError\<close>\<close>
  "int_base2 s =
     (if s = [] \<or> \<not> list_all is_bit s then Inl ValueError else Inr (bits_value s))"

definition integer_conversion_binary :: "nat \<Rightarrow> string" where
  \<comment> \<open>\<^verbatim>\<open>integer_conversion(data, 'binary')\<close>\<close>
  "integer_conversion_binary data = zfill 8 (bin_digits data)"

definition integer_conversion_integer :: "string \<Rightarrow> error + nat" where
  \<comment> \<open>\<^verbatim>\<open>integer_conversion(data, 'integer')\<close>: the \<^verbatim>\<open>else\<close> branch\<close>
  "integer_conversion_integer data = int_base2 data"

subsection \<open>The configuration object\<close>

record Configuration =
  COLOURS :: "(string \<times> nat) list"
  INDEXS :: "(string \<times> nat) list"
  VOLUME :: nat
  METHOD :: string
  NOISE :: bool
  KEY :: nat

definition colour_list :: "string list" where
  "colour_list = [''red'', ''green'', ''blue'']"

definition index_list :: "string list" where
  "index_list = [''1st'', ''2nd'', ''3rd'', ''4th'', ''5th'', ''6th'', ''7th'', ''8th'']"

fun dict_comprehension :: "string list \<Rightarrow> (string \<times> nat) list \<Rightarrow> nat list
    \<Rightarrow> error + (string \<times> nat) list" where
  \<comment> \<open>\<^verbatim>\<open>{names[i]: i for i in xs}\<close>\<close>
  "dict_comprehension names d [] = Inr d"
| "dict_comprehension names d (i # xs) =
     bind (py_index names i) (\<lambda>k. dict_comprehension names (dict_set d k i) xs)"

definition build_object :: "nat \<Rightarrow> string \<Rightarrow> bool \<Rightarrow> nat list option \<Rightarrow> nat list option
    \<Rightarrow> error + Configuration" where
  "build_object key method noise colours_arg indexs_arg =
     (let colours = (case colours_arg of None \<Rightarrow> [0, 1, 2] | Some cs \<Rightarrow> cs);
          indexs = (case indexs_arg of None \<Rightarrow> [6, 7] | Some ix \<Rightarrow> ix)
      in bind (dict_comprehension colour_list [] colours) (\<lambda>cd.
         bind (dict_comprehension index_list [] indexs) (\<lambda>xd.
         Inr \<lparr> COLOURS = cd, INDEXS = xd,
               VOLUME = (if method = ''all'' then length colours * length indexs
                         else length indexs),
               METHOD = method, NOISE = noise, KEY = key \<rparr>)))"

subsection \<open>The header encoder\<close>

fun mark_table :: "string list \<Rightarrow> nat list \<Rightarrow> error + string list" where
  \<comment> \<open>\<^verbatim>\<open>for x in xs: table[x] = "1"\<close>\<close>
  "mark_table table [] = Inr table"
| "mark_table table (x # xs) =
     bind (py_assign table x ''1'') (\<lambda>table'. mark_table table' xs)"

definition generate_header :: "Configuration \<Rightarrow> error + string" where
  "generate_header Config =
     (let colours = dict_values (COLOURS Config);
          indexs = dict_values (INDEXS Config);
          method = METHOD Config;
          method_bool = (if method = ''random'' then ''1'' else ''0'')
      in bind (mark_table [''0'', ''0'', ''0''] colours) (\<lambda>colour_table.
         bind (mark_table [''0'', ''0'', ''0'', ''0'', ''0'', ''0'', ''0'', ''0''] indexs)
           (\<lambda>index_table.
         Inr (method_bool @ concat colour_table @ concat index_table))))"

subsection \<open>The pixel grid\<close>

text \<open>
  An image is its size and its pixel contents; a pixel is the list of its channel values.
  \<^verbatim>\<open>getpixel\<close> and \<^verbatim>\<open>putpixel\<close> raise \<^verbatim>\<open>IndexError\<close> outside the grid.
  \<^verbatim>\<open>load_image\<close> and \<^verbatim>\<open>save_image\<close> only move an image between a file and
  memory; the model starts from the loaded image and ends with the image that would be saved.
\<close>

record image =
  xsize :: nat
  ysize :: nat
  pixel_at :: "nat \<times> nat \<Rightarrow> nat list"

record Size =
  WIDTH :: nat
  HEIGHT :: nat
  PIXELS :: nat

definition image_size :: "image \<Rightarrow> Size" where
  \<comment> \<open>the \<^verbatim>\<open>Size\<close> class that \<^verbatim>\<open>load_image\<close> builds from \<^verbatim>\<open>image.size\<close>\<close>
  "image_size Img =
     \<lparr> WIDTH = xsize Img, HEIGHT = ysize Img, PIXELS = xsize Img * ysize Img \<rparr>"

definition getpixel :: "image \<Rightarrow> nat \<times> nat \<Rightarrow> error + nat list" where
  "getpixel Img xy =
     (if fst xy < xsize Img \<and> snd xy < ysize Img then Inr (pixel_at Img xy)
      else Inl IndexError)"

definition putpixel :: "image \<Rightarrow> nat \<times> nat \<Rightarrow> nat list \<Rightarrow> error + image" where
  "putpixel Img xy pixel =
     (if fst xy < xsize Img \<and> snd xy < ysize Img
      then Inr (Img\<lparr> pixel_at := (pixel_at Img)(xy := pixel) \<rparr>)
      else Inl IndexError)"

subsection \<open>The random module\<close>

text \<open>
  \<^verbatim>\<open>random.seed\<close> followed by \<^verbatim>\<open>random.sample\<close> is the Mersenne Twister of the
  Python library, which is not part of this program.  What \<^verbatim>\<open>sample\<close> returns is
  determined by the seed and by the length of the population alone: it chooses positions and
  returns the elements at these positions.  The library is therefore a parameter:
  \<open>sample_all R key n\<close> is the order of positions that \<^verbatim>\<open>sample(data, n)\<close> chooses
  for a population of \<open>n\<close> elements after \<^verbatim>\<open>seed(key)\<close>, and \<open>sample_one R key n m\<close>
  are the positions that \<open>m\<close> successive calls \<^verbatim>\<open>sample(options, k = 1)\<close> choose
  for \<open>n\<close> options after \<^verbatim>\<open>seed(key)\<close>.
\<close>

record py_random =
  sample_all :: "nat \<Rightarrow> nat \<Rightarrow> nat list"
  sample_one :: "nat \<Rightarrow> nat \<Rightarrow> nat \<Rightarrow> nat list"

definition random_ok :: "py_random \<Rightarrow> bool" where
  \<comment> \<open>what the library guarantees: a full sample is a permutation of the positions, and
      every single draw from a non-empty population is a position\<close>
  "random_ok R \<longleftrightarrow>
     (\<forall>key n. mset (sample_all R key n) = mset [0..<n]) \<and>
     (\<forall>key n m. 0 < n \<longrightarrow> length (sample_one R key n m) = m \<and>
        (\<forall>j \<in> set (sample_one R key n m). j < n))"

definition shuffle :: "py_random \<Rightarrow> nat \<Rightarrow> 'a list \<Rightarrow> 'a list" where
  "shuffle R key data = map (\<lambda>j. data ! j) (sample_all R key (length data))"

definition random_sample :: "py_random \<Rightarrow> nat \<Rightarrow> 'a list \<Rightarrow> nat \<Rightarrow> error + 'a list list" where
  \<comment> \<open>\<^verbatim>\<open>number_picked\<close> is 1 at every call; \<^verbatim>\<open>sample\<close> raises
      \<^verbatim>\<open>ValueError\<close> when asked for one element of an empty population\<close>
  "random_sample R key options len =
     (if len = 0 then Inr []
      else if options = [] then Inl ValueError
      else Inr (map (\<lambda>j. [options ! j]) (sample_one R key (length options) len)))"

subsection \<open>Key derivation\<close>

definition decimal_encoding :: "nat list \<Rightarrow> nat" where
  \<comment> \<open>\<^verbatim>\<open>reduce(lambda a, b: a * 256 + b, map(ord, text), 0)\<close>\<close>
  "decimal_encoding text = foldl (\<lambda>a b. a * 256 + b) 0 text"

fun comprehension :: "('a \<Rightarrow> error + 'b) \<Rightarrow> 'a list \<Rightarrow> error + 'b list" where
  \<comment> \<open>\<^verbatim>\<open>[f(x) for x in xs]\<close> where \<open>f\<close> may raise\<close>
  "comprehension f [] = Inr []"
| "comprehension f (x # xs) =
     bind (f x) (\<lambda>y. bind (comprehension f xs) (\<lambda>ys. Inr (y # ys)))"

definition generate_context :: "py_random \<Rightarrow> nat list \<Rightarrow> image \<Rightarrow> Size \<Rightarrow> nat
    \<Rightarrow> error + ((nat \<times> nat) list \<times> nat)" where
  "generate_context R key_text Img Sz key_pixels =
     (let key0 = decimal_encoding key_text;
          key1 = key0 * (PIXELS Sz * 99);
          coords = shuffle R key1 (List.product [0..<WIDTH Sz] [0..<HEIGHT Sz])
      in bind (comprehension (\<lambda>point. bind (py_index coords point) (getpixel Img))
                 [0..<key_pixels - 1]) (\<lambda>pixels.
         let key2 = key1 * sum_list (map sum_list pixels);
             coords2 = shuffle R key2 (drop key_pixels coords)
         in Inr (coords2, key2)))"

subsection \<open>Embedding the header\<close>

fun attach_header_loop :: "image \<Rightarrow> string \<Rightarrow> (nat \<times> nat) list \<Rightarrow> nat list \<Rightarrow> nat
    \<Rightarrow> (nat \<times> nat) list \<Rightarrow> error + image" where
  \<comment> \<open>\<^verbatim>\<open>for i, position in enumerate(header_coords)\<close>, from index \<open>i\<close> on\<close>
  "attach_header_loop Img header coords colours i [] = Inr Img"
| "attach_header_loop Img header coords colours i (position # rest) =
     bind (getpixel Img position) (\<lambda>pixel.
     bind (py_index colours i) (\<lambda>colour.
     bind (py_index pixel colour) (\<lambda>channel.
     let val = integer_conversion_binary channel in
     bind (py_index header i) (\<lambda>header_bit.
     bind (integer_conversion_integer (butlast val @ [header_bit])) (\<lambda>modified_value.
     bind (py_assign pixel colour modified_value) (\<lambda>pixel'.
     bind (py_index coords i) (\<lambda>xy.
     bind (putpixel Img xy pixel') (\<lambda>Img'.
     attach_header_loop Img' header coords colours (Suc i) rest))))))))"

definition attach_header :: "py_random \<Rightarrow> image \<Rightarrow> nat \<Rightarrow> string \<Rightarrow> (nat \<times> nat) list
    \<Rightarrow> error + ((nat \<times> nat) list \<times> image)" where
  \<comment> \<open>\<^verbatim>\<open>coords[:length - 1]\<close> is \<^verbatim>\<open>coords[:-1]\<close> for an empty header\<close>
  "attach_header R Img key header coords =
     (let len = length header;
          header_coords = (if len = 0 then butlast coords else take (len - 1) coords)
      in bind (random_sample R key [0, 1, 2] len) (\<lambda>sampled.
         let colours = concat sampled in
         bind (attach_header_loop Img header coords colours 0 header_coords) (\<lambda>Img'.
         Inr (drop len coords, Img'))))"

subsection \<open>The UTF-8 codec of the Python library\<close>

text \<open>
  \<^verbatim>\<open>bytearray(data, 'utf-8')\<close> and \<^verbatim>\<open>bytes.decode('utf-8')\<close> are the strict
  UTF-8 codec.  A Python string holds code points below \<open>0x110000\<close>; the encoder refuses
  the surrogates \<open>0xD800 .. 0xDFFF\<close>.  The decoder accepts exactly the well-formed byte
  sequences of the Unicode standard: no stray or missing continuation byte, no overlong
  form, no surrogate, nothing above \<open>0x10FFFF\<close>.
\<close>

definition is_text :: "nat list \<Rightarrow> bool" where
  "is_text t \<longleftrightarrow> list_all (\<lambda>c. c < 0x110000) t"

definition utf8_encode_cp :: "nat \<Rightarrow> error + nat list" where
  "utf8_encode_cp c =
     (if c < 0x80 then Inr [c]
      else if c < 0x800 then Inr [0xC0 + c div 64, 0x80 + c mod 64]
      else if c < 0x10000 then
        (if 0xD800 \<le> c \<and> c < 0xE000 then Inl UnicodeEncodeError
         else Inr [0xE0 + c div 4096, 0x80 + c div 64 mod 64, 0x80 + c mod 64])
      else Inr [0xF0 + c div 262144, 0x80 + c div 4096 mod 64,
                0x80 + c div 64 mod 64, 0x80 + c mod 64])"

fun utf8_encode :: "nat list \<Rightarrow> error + nat list" where
  "utf8_encode [] = Inr []"
| "utf8_encode (c # cs) =
     bind (utf8_encode_cp c) (\<lambda>bs. bind (utf8_encode cs) (\<lambda>rest. Inr (bs @ rest)))"

definition is_cont :: "nat \<Rightarrow> bool" where
  "is_cont b \<longleftrightarrow> 0x80 \<le> b \<and> b < 0xC0"

definition utf8_width :: "nat \<Rightarrow> nat" where
  \<comment> \<open>the number of bytes a lead byte announces; 0 for a byte that cannot lead\<close>
  "utf8_width b =
     (if b < 0x80 then 1
      else if 0xC2 \<le> b \<and> b < 0xE0 then 2
      else if 0xE0 \<le> b \<and> b < 0xF0 then 3
      else if 0xF0 \<le> b \<and> b < 0xF5 then 4
      else 0)"

definition utf8_scalar :: "nat \<Rightarrow> nat list \<Rightarrow> error + nat" where
  \<comment> \<open>the code point of a lead byte and its continuation bytes\<close>
  "utf8_scalar b0 trail =
     (if \<not> list_all is_cont trail then Inl UnicodeDecodeError
      else case trail of
          [] \<Rightarrow> Inr b0
        | [b1] \<Rightarrow> Inr ((b0 - 0xC0) * 64 + (b1 - 0x80))
        | [b1, b2] \<Rightarrow>
            (let c = (b0 - 0xE0) * 4096 + (b1 - 0x80) * 64 + (b2 - 0x80)
             in if c < 0x800 \<or> (0xD800 \<le> c \<and> c < 0xE000) then Inl UnicodeDecodeError
                else Inr c)
        | [b1, b2, b3] \<Rightarrow>
            (let c = (b0 - 0xF0) * 262144 + (b1 - 0x80) * 4096 + (b2 - 0x80) * 64 + (b3 - 0x80)
             in if c < 0x10000 \<or> 0x110000 \<le> c then Inl UnicodeDecodeError else Inr c)
        | _ \<Rightarrow> Inl UnicodeDecodeError)"

fun utf8_decode :: "nat list \<Rightarrow> error + nat list" where
  "utf8_decode [] = Inr []"
| "utf8_decode (b0 # bs) =
     (let n = utf8_width b0
      in if n = 0 \<or> length bs < n - 1 then Inl UnicodeDecodeError
         else bind (utf8_scalar b0 (take (n - 1) bs)) (\<lambda>c.
              bind (utf8_decode (drop (n - 1) bs)) (\<lambda>cs. Inr (c # cs))))"

subsection \<open>Text to bits and back\<close>

fun be_bytes :: "nat \<Rightarrow> nat \<Rightarrow> nat list" where
  \<comment> \<open>the \<open>k\<close> low bytes of a number, most significant first\<close>
  "be_bytes 0 v = []"
| "be_bytes (Suc k) v = be_bytes k (v div 256) @ [v mod 256]"

definition to_bytes :: "nat \<Rightarrow> nat \<Rightarrow> error + nat list" where
  \<comment> \<open>\<^verbatim>\<open>v.to_bytes(k, byteorder='big')\<close>\<close>
  "to_bytes v k = (if 256 ^ k \<le> v then Inl OverflowError else Inr (be_bytes k v))"

definition binary_conversion_binary :: "nat list \<Rightarrow> error + string" where
  \<comment> \<open>\<^verbatim>\<open>binary_conversion(data, 'binary')\<close>\<close>
  "binary_conversion_binary data =
     bind (utf8_encode data) (\<lambda>bytes.
     Inr (concat (map (\<lambda>byte. zfill 8 (bin_digits byte)) bytes)))"

definition binary_conversion_text :: "string \<Rightarrow> error + nat list" where
  \<comment> \<open>\<^verbatim>\<open>binary_conversion(data, 'text')\<close>: the code after the \<^verbatim>\<open>if\<close>\<close>
  "binary_conversion_text data =
     bind (int_base2 data) (\<lambda>v.
     bind (to_bytes v (length data div 8)) (\<lambda>byte_list.
     utf8_decode byte_list))"

subsection \<open>Building the payload\<close>

definition digit_char :: "nat \<Rightarrow> char" where
  "digit_char d = char_of (48 + d)"

function str_nat :: "nat \<Rightarrow> string" where
  \<comment> \<open>\<^verbatim>\<open>str(n)\<close>\<close>
  "str_nat n = (if n < 10 then [digit_char n] else str_nat (n div 10) @ [digit_char (n mod 10)])"
  by pat_completeness auto
termination
  by (relation "measure (\<lambda>n. n)") auto

declare str_nat.simps [simp del]

text \<open>
  \<^verbatim>\<open>generate_numbers\<close> seeds the generator from \<^verbatim>\<open>token_hex(64)\<close>, so its draws
  are fresh at every call.  The draws are a parameter: \<open>coin i\<close> is what the \<open>i\<close>-th call
  of \<^verbatim>\<open>randint\<close> draws, reduced into the requested range.
\<close>

definition generate_numbers :: "(nat \<Rightarrow> nat) \<Rightarrow> nat \<Rightarrow> nat \<Rightarrow> nat \<Rightarrow> error + string" where
  "generate_numbers coin min_value max_value number_values =
     (if number_values \<noteq> 0 \<and> max_value < min_value then Inl ValueError
      else Inr (concat (map (\<lambda>i. str_nat (min_value + coin i mod (max_value - min_value + 1)))
                          [0..<number_values])))"

definition generate_message :: "(nat \<Rightarrow> nat) \<Rightarrow> Configuration \<Rightarrow> nat list
    \<Rightarrow> (nat \<times> nat \<times> nat \<times> nat) list \<Rightarrow> error + string" where
  "generate_message coin Config text coords =
     (let capacity = length coords
      in bind (binary_conversion_binary text) (\<lambda>data.
         let end_key_size = length (integer_conversion_binary capacity);
             data_size = length data;
             size = end_key_size + data_size
         in if size > capacity then Inl (MessageSizeExceeded (size - capacity))
            else bind (if NOISE Config then generate_numbers coin 0 1 (capacity - size)
                       else Inr []) (\<lambda>noise.
                 let end_key = zfill end_key_size (integer_conversion_binary data_size)
                 in Inr (end_key @ data @ noise))))"

subsection \<open>Planning the slots\<close>

fun generate_coords_loop :: "(nat \<Rightarrow> error + nat list) \<Rightarrow> nat list
    \<Rightarrow> (nat \<times> nat \<times> nat \<times> nat) list \<Rightarrow> nat \<Rightarrow> (nat \<times> nat) list
    \<Rightarrow> error + (nat \<times> nat \<times> nat \<times> nat) list" where
  \<comment> \<open>\<^verbatim>\<open>for i, coordinate in enumerate(pixel_coords)\<close>, from index \<open>i\<close> on;
      \<open>colours_at i\<close> is the list the inner \<^verbatim>\<open>for colour in ...\<close> runs over\<close>
  "generate_coords_loop colours_at indexs data_coords i [] = Inr data_coords"
| "generate_coords_loop colours_at indexs data_coords i (coordinate # rest) =
     bind (colours_at i) (\<lambda>cs.
     generate_coords_loop colours_at indexs
       (foldl (\<lambda>acc colour.
                 acc @ map (\<lambda>index. (fst coordinate, snd coordinate, colour, index)) indexs)
              data_coords cs)
       (Suc i) rest)"

definition generate_coords :: "py_random \<Rightarrow> Configuration \<Rightarrow> Size \<Rightarrow> (nat \<times> nat) list
    \<Rightarrow> error + (nat \<times> nat \<times> nat \<times> nat) list" where
  "generate_coords R Config Sz pixel_coords =
     (let colours = dict_values (COLOURS Config);
          indexs = dict_values (INDEXS Config);
          method = METHOD Config;
          key = KEY Config;
          len = PIXELS Sz
      in if method = ''random''
         then bind (random_sample R key colours len) (\<lambda>sampled.
              bind (generate_coords_loop (py_index sampled) indexs [] 0 pixel_coords)
                (\<lambda>data_coords. Inr (shuffle R key data_coords)))
         else bind (generate_coords_loop (\<lambda>i. Inr colours) indexs [] 0 pixel_coords)
                (\<lambda>data_coords. Inr (shuffle R key data_coords)))"

subsection \<open>Writing the payload bits\<close>

fun attach_data_loop :: "image \<Rightarrow> string \<Rightarrow> (nat \<times> nat \<times> nat \<times> nat) list \<Rightarrow> nat
    \<Rightarrow> (nat \<times> nat \<times> nat \<times> nat) list \<Rightarrow> error + image" where
  \<comment> \<open>\<^verbatim>\<open>for i, position in enumerate(coords)\<close>, from index \<open>i\<close> on\<close>
  "attach_data_loop Img binary_message coords i [] = Inr Img"
| "attach_data_loop Img binary_message coords i (position # rest) =
     bind (getpixel Img (fst position, fst (snd position))) (\<lambda>pixel.
     bind (py_index pixel (fst (snd (snd position)))) (\<lambda>channel.
     let val = integer_conversion_binary channel in
     bind (py_index binary_message i) (\<lambda>message_bit.
     bind (py_assign val (snd (snd (snd position))) message_bit) (\<lambda>val'.
     bind (integer_conversion_integer val') (\<lambda>modified_value.
     bind (py_assign pixel (fst (snd (snd position))) modified_value) (\<lambda>pixel'.
     bind (py_index coords i) (\<lambda>c.
     bind (putpixel Img (fst c, fst (snd c)) pixel') (\<lambda>Img'.
     attach_data_loop Img' binary_message coords (Suc i) rest))))))))"

definition attach_data :: "image \<Rightarrow> Configuration \<Rightarrow> string \<Rightarrow> (nat \<times> nat \<times> nat \<times> nat) list
    \<Rightarrow> error + image" where
  "attach_data Img Config binary_message coords0 =
     (let coords = (if \<not> NOISE Config then take (length binary_message) coords0 else coords0)
      in attach_data_loop Img binary_message coords 0 coords)"

subsection \<open>Extraction and the two entry points\<close>

text \<open>
  The bodies of \<^verbatim>\<open>extract_header\<close> and \<^verbatim>\<open>extract_message\<close> are \<^verbatim>\<open>pass\<close>:
  both return \<^verbatim>\<open>None\<close>.  Unpacking \<^verbatim>\<open>None\<close> into five names raises
  \<^verbatim>\<open>TypeError\<close>.  \<^verbatim>\<open>data_extract\<close> has no \<^verbatim>\<open>return\<close> statement, so what it
  returns when no exception is raised is \<^verbatim>\<open>None\<close> as well.
\<close>

type_synonym header_fields =
  "string \<times> bool \<times> nat list option \<times> nat list option \<times> (nat \<times> nat) list"

definition extract_header :: "image \<Rightarrow> nat list \<Rightarrow> (nat \<times> nat) list \<Rightarrow> header_fields option" where
  "extract_header Img key coords = None"

definition extract_message :: "unit \<Rightarrow> string option" where
  "extract_message u = None"

definition unpack :: "'a option \<Rightarrow> error + 'a" where
  \<comment> \<open>\<^verbatim>\<open>a, b, c, d, e = value\<close>\<close>
  "unpack v = (case v of None \<Rightarrow> Inl TypeError | Some t \<Rightarrow> Inr t)"

definition data_insert :: "py_random \<Rightarrow> (nat \<Rightarrow> nat) \<Rightarrow> image \<Rightarrow> nat list \<Rightarrow> nat list \<Rightarrow> string
    \<Rightarrow> nat list option \<Rightarrow> nat list option \<Rightarrow> bool \<Rightarrow> error + image" where
  \<comment> \<open>the result is the image handed to \<^verbatim>\<open>save_image\<close>\<close>
  "data_insert R coin Img key text method colours indexs noise =
     (let Sz = image_size Img
      in bind (generate_context R key Img Sz 16) (\<lambda>(coords, image_key).
         bind (build_object image_key method noise colours indexs) (\<lambda>Config.
         bind (generate_header Config) (\<lambda>header.
         bind (attach_header R Img image_key header coords) (\<lambda>(cut_coords, Img1).
         bind (generate_coords R Config Sz cut_coords) (\<lambda>data_coords.
         bind (generate_message coin Config text data_coords) (\<lambda>binary_message.
         attach_data Img1 Config binary_message data_coords)))))))"

definition data_extract :: "py_random \<Rightarrow> image \<Rightarrow> nat list \<Rightarrow> error + nat list option" where
  "data_extract R Img key =
     (let Sz = image_size Img
      in bind (generate_context R key Img Sz 16) (\<lambda>(coords, image_key).
         bind (unpack (extract_header Img key coords))
           (\<lambda>(method, noise, colours, indexs, cut_coords).
         bind (build_object image_key method noise colours indexs) (\<lambda>Config.
         bind (generate_coords R Config Sz cut_coords) (\<lambda>data_coords.
         let binary_message = extract_message () in Inr None)))))"

section \<open>Notions used to state the properties\<close>

fun fixed_bits :: "nat \<Rightarrow> nat \<Rightarrow> string" where
  \<comment> \<open>the \<open>w\<close> low binary digits of a number, most significant first\<close>
  "fixed_bits 0 n = []"
| "fixed_bits (Suc w) n = fixed_bits w (n div 2) @ [bit_char (n mod 2)]"

function bit_length :: "nat \<Rightarrow> nat" where
  \<comment> \<open>the number of binary digits needed to write a number; 0 for 0\<close>
  "bit_length n = (if n = 0 then 0 else Suc (bit_length (n div 2)))"
  by pat_completeness auto
termination
  by (relation "measure (\<lambda>n. n)") auto

declare bit_length.simps [simp del]

function bytes_of_bits :: "string \<Rightarrow> nat list" where
  \<comment> \<open>the bytes of a digit string, eight digits to the byte, most significant first\<close>
  "bytes_of_bits s =
     (if length s < 8 then [] else bits_value (take 8 s) # bytes_of_bits (drop 8 s))"
  by pat_completeness auto
termination
  by (relation "measure length") auto

declare bytes_of_bits.simps [simp del]

definition channel_bit :: "nat \<Rightarrow> nat \<Rightarrow> nat" where
  \<comment> \<open>bit \<open>j\<close> of a channel byte, where bit 0 is the most significant of the eight\<close>
  "channel_bit v j = v div 2 ^ (7 - j) mod 2"

definition byte_image :: "image \<Rightarrow> bool" where
  \<comment> \<open>every pixel has three channels, each a byte\<close>
  "byte_image Img \<longleftrightarrow>
     (\<forall>xy. length (pixel_at Img xy) = 3 \<and> (\<forall>v \<in> set (pixel_at Img xy). v < 256))"

definition bootstrap_pixels :: "py_random \<Rightarrow> nat list \<Rightarrow> image \<Rightarrow> nat list list" where
  \<comment> \<open>the 15 pixels that \<^verbatim>\<open>generate_context\<close> samples for a key text\<close>
  "bootstrap_pixels R key_text Img =
     map (\<lambda>point. pixel_at Img
            (shuffle R (decimal_encoding key_text * (xsize Img * ysize Img * 99))
               (List.product [0..<xsize Img] [0..<ysize Img]) ! point))
       [0..<15]"

definition slots_all :: "nat list \<Rightarrow> nat list \<Rightarrow> (nat \<times> nat) list
    \<Rightarrow> (nat \<times> nat \<times> nat \<times> nat) list" where
  \<comment> \<open>one slot per coordinate, per channel, per bit position, in this order\<close>
  "slots_all colours indexs cs =
     concat (map (\<lambda>c. concat (map (\<lambda>colour.
       map (\<lambda>index. (fst c, snd c, colour, index)) indexs) colours)) cs)"

definition slots_random :: "(nat \<Rightarrow> nat) \<Rightarrow> nat list \<Rightarrow> (nat \<times> nat) list
    \<Rightarrow> (nat \<times> nat \<times> nat \<times> nat) list" where
  \<comment> \<open>one slot per coordinate and bit position, on the channel chosen for the \<open>i\<close>-th
      coordinate\<close>
  "slots_random channel indexs cs =
     concat (map (\<lambda>(i, c). map (\<lambda>index. (fst c, snd c, channel i, index)) indexs)
       (enumerate 0 cs))"

definition drawn_channel :: "py_random \<Rightarrow> Configuration \<Rightarrow> Size \<Rightarrow> nat \<Rightarrow> nat" where
  \<comment> \<open>the channel that the generator, seeded with the key of the configuration, draws for
      the \<open>i\<close>-th coordinate\<close>
  "drawn_channel R Config Sz i =
     dict_values (COLOURS Config) !
       (sample_one R (KEY Config) (length (dict_values (COLOURS Config))) (PIXELS Sz) ! i)"

subsection \<open>Concrete inputs for the examples\<close>

definition zero_coin :: "nat \<Rightarrow> nat" where
  "zero_coin i = 0"

definition plain_config :: Configuration where
  \<comment> \<open>\<^verbatim>\<open>build_object(0, 'all', False, [0], [7])\<close>\<close>
  "plain_config = \<lparr> COLOURS = [(''red'', 0)], INDEXS = [(''8th'', 7)], VOLUME = 1,
                     METHOD = ''all'', NOISE = False, KEY = 0 \<rparr>"

definition slots_of_length :: "nat \<Rightarrow> (nat \<times> nat \<times> nat \<times> nat) list" where
  "slots_of_length n = replicate n (0, 0, 0, 7)"

definition identity_random :: py_random where
  \<comment> \<open>a generator that keeps every population in order and always draws position 0\<close>
  "identity_random = \<lparr> sample_all = (\<lambda>key n. [0..<n]), sample_one = (\<lambda>key n m. replicate m 0) \<rparr>"

definition zero_image :: image where
  \<comment> \<open>10 by 10 pixels, all channels zero\<close>
  "zero_image = \<lparr> xsize = 10, ysize = 10, pixel_at = (\<lambda>xy. [0, 0, 0]) \<rparr>"

definition random_config :: Configuration where
  \<comment> \<open>\<^verbatim>\<open>build_object(0, 'random', False, [1, 2], [6, 7])\<close>\<close>
  "random_config = \<lparr> COLOURS = [(''green'', 1), (''blue'', 2)],
                      INDEXS = [(''7th'', 6), (''8th'', 7)], VOLUME = 2,
                      METHOD = ''random'', NOISE = False, KEY = 0 \<rparr>"

definition default_header :: string where
  \<comment> \<open>the header of the default configuration: method "random", all three channels, bit
      positions 6 and 7\<close>
  "default_header = ''111100000011''"

definition twelve_coords :: "(nat \<times> nat) list" where
  "twelve_coords = [(0, 0), (1, 0), (2, 0), (3, 0), (4, 0), (5, 0), (6, 0), (7, 0), (8, 0),
                    (9, 0), (0, 1), (1, 1)]"

section \<open>Properties\<close>

subsection \<open>Sequencing of fallible steps\<close>

lemma bind_Inr [simp]: "bind (Inr x) f = f x"
  by (simp add: bind_def)

lemma bind_Inl [simp]: "bind (Inl e) f = Inl e"
  by (simp add: bind_def)

lemma bind_eq_Inr: "bind m f = Inr y \<longleftrightarrow> (\<exists>x. m = Inr x \<and> f x = Inr y)"
  by (cases m) simp_all

lemma mark_table_result:
  "\<forall>x \<in> set xs. x < length table \<Longrightarrow>
   \<exists>table'. mark_table table xs = Inr table' \<and> length table' = length table \<and>
     (\<forall>i < length table. table' ! i = (if i \<in> set xs then ''1'' else table ! i))"
proof (induction xs arbitrary: table)
  case Nil
  then show ?case by simp
next
  case (Cons x xs)
  from Cons.prems have x: "x < length table" and xs: "\<forall>y \<in> set xs. y < length (table[x := ''1''])"
    by simp_all
  from Cons.IH [OF xs] obtain table' where
    t: "mark_table (table[x := ''1'']) xs = Inr table'" "length table' = length table"
      "\<forall>i < length table. table' ! i = (if i \<in> set xs then ''1'' else table[x := ''1''] ! i)"
    by auto
  have "\<forall>i < length table. table' ! i = (if i \<in> set (x # xs) then ''1'' else table ! i)"
    using t(3) x by (auto simp: nth_list_update)
  with t(1,2) x show ?case by (simp add: py_assign_def)
qed

lemma concat_singletons:
  "\<forall>s \<in> set t. length s = 1 \<Longrightarrow> concat t = map hd t"
  by (induction t) (auto simp: length_Suc_conv)

subsection \<open>The header encoder\<close>

text \<open>
  C6.  For a configuration whose channels are a non-empty selection of red, green, blue
  (0, 1, 2) and whose bit positions are a non-empty selection of 0 to 7,
  \<^verbatim>\<open>generate_header\<close> returns a string of exactly 12 binary digits: digit 0 is 1
  exactly when the method is "random", digits 1 to 3 mark the selected channels in the
  order red, green, blue, and digits 4 to 11 mark the selected bit positions in the order
  0 to 7.
\<close>

theorem generate_header_layout:
  assumes cs: "set (dict_values (COLOURS Config)) \<subseteq> {0, 1, 2}"
      and cne: "dict_values (COLOURS Config) \<noteq> []"
      and ix: "set (dict_values (INDEXS Config)) \<subseteq> {0..<8}"
      and ine: "dict_values (INDEXS Config) \<noteq> []"
  shows "\<exists>h. generate_header Config = Inr h \<and> length h = 12 \<and> list_all is_bit h \<and>
           (h ! 0 = CHR ''1'' \<longleftrightarrow> METHOD Config = ''random'') \<and>
           (\<forall>c < 3. h ! (1 + c) = CHR ''1'' \<longleftrightarrow> c \<in> set (dict_values (COLOURS Config))) \<and>
           (\<forall>j < 8. h ! (4 + j) = CHR ''1'' \<longleftrightarrow> j \<in> set (dict_values (INDEXS Config)))"
proof -
  let ?cols = "dict_values (COLOURS Config)" and ?idxs = "dict_values (INDEXS Config)"
  let ?ct0 = "[''0'', ''0'', ''0'']"
  let ?it0 = "[''0'', ''0'', ''0'', ''0'', ''0'', ''0'', ''0'', ''0'']"
  have "\<forall>x \<in> set ?cols. x < length ?ct0" using cs by auto
  from mark_table_result [OF this] obtain ct where
    ct: "mark_table ?ct0 ?cols = Inr ct" "length ct = 3"
      "\<forall>i < 3. ct ! i = (if i \<in> set ?cols then ''1'' else ?ct0 ! i)"
    by auto
  have "\<forall>x \<in> set ?idxs. x < length ?it0" using ix by auto
  from mark_table_result [OF this] obtain it where
    it: "mark_table ?it0 ?idxs = Inr it" "length it = 8"
      "\<forall>i < 8. it ! i = (if i \<in> set ?idxs then ''1'' else ?it0 ! i)"
    by auto
  have ct_nth: "ct ! i = (if i \<in> set ?cols then ''1'' else ''0'')" if "i < 3" for i
    using ct(3) that by (auto simp: nth_Cons split: nat.splits)
  have it_nth: "it ! i = (if i \<in> set ?idxs then ''1'' else ''0'')" if "i < 8" for i
    using it(3) that by (auto simp: nth_Cons split: nat.splits)
  have ct1: "\<forall>s \<in> set ct. length s = 1"
    using ct(2) ct_nth by (auto simp: in_set_conv_nth)
  have it1: "\<forall>s \<in> set it. length s = 1"
    using it(2) it_nth by (auto simp: in_set_conv_nth)
  define mb where "mb = (if METHOD Config = ''random'' then ''1'' else ''0'')"
  define h where "h = mb @ map hd ct @ map hd it"
  have gh: "generate_header Config = Inr h"
    by (simp add: generate_header_def Let_def ct(1) it(1) h_def mb_def
        concat_singletons [OF ct1] concat_singletons [OF it1])
  have len: "length h = 12" by (simp add: h_def mb_def ct(2) it(2))
  have h0: "h ! 0 = CHR ''1'' \<longleftrightarrow> METHOD Config = ''random''"
    by (simp add: h_def mb_def)
  have hc: "h ! (1 + c) = (if c \<in> set ?cols then CHR ''1'' else CHR ''0'')" if "c < 3" for c
    using that ct(2) ct_nth [OF that] by (simp add: h_def mb_def nth_append)
  have hj: "h ! (4 + j) = (if j \<in> set ?idxs then CHR ''1'' else CHR ''0'')" if "j < 8" for j
    using that ct(2) it(2) it_nth [OF that] by (simp add: h_def mb_def nth_append)
  have bits: "list_all is_bit h"
  proof -
    have "is_bit (h ! k)" if "k < 12" for k
    proof -
      have "k = 0 \<or> (k = 1 + (k - 1) \<and> k - 1 < 3) \<or> (k = 4 + (k - 4) \<and> k - 4 < 8)"
        using that by linarith
      then show ?thesis
      proof (elim disjE conjE)
        assume "k = 0"
        then show ?thesis by (simp add: h_def mb_def is_bit_def)
      next
        assume "k = 1 + (k - 1)" "k - 1 < 3"
        then show ?thesis using hc [of "k - 1"] by (simp add: is_bit_def)
      next
        assume "k = 4 + (k - 4)" "k - 4 < 8"
        then show ?thesis using hj [of "k - 4"] by (simp add: is_bit_def)
      qed
    qed
    then show ?thesis using len by (simp add: list_all_length)
  qed
  show ?thesis using gh len bits h0 hc hj by auto
qed

theorem generate_header_layout_witness:
  "\<exists>h. generate_header \<lparr> COLOURS = [(''green'', 1)], INDEXS = [(''7th'', 6), (''8th'', 7)],
           VOLUME = 2, METHOD = ''all'', NOISE = False, KEY = 0 \<rparr> = Inr h \<and>
         length h = 12 \<and> list_all is_bit h \<and>
         (h ! 0 = CHR ''1'' \<longleftrightarrow> ''all'' = ''random'') \<and>
         (\<forall>c < 3. h ! (1 + c) = CHR ''1'' \<longleftrightarrow> c \<in> {1}) \<and>
         (\<forall>j < 8. h ! (4 + j) = CHR ''1'' \<longleftrightarrow> j \<in> {6, 7})"
proof -
  let ?cfg = "\<lparr> COLOURS = [(''green'', 1)], INDEXS = [(''7th'', 6), (''8th'', 7)],
           VOLUME = 2, METHOD = ''all'', NOISE = False, KEY = 0 \<rparr>"
  have 1: "set (dict_values (COLOURS ?cfg)) \<subseteq> {0, 1, 2}" by (simp add: dict_values_def)
  have 2: "dict_values (COLOURS ?cfg) \<noteq> []" by (simp add: dict_values_def)
  have 3: "set (dict_values (INDEXS ?cfg)) \<subseteq> {0..<8}" by (simp add: dict_values_def)
  have 4: "dict_values (INDEXS ?cfg) \<noteq> []" by (simp add: dict_values_def)
  have 5: "set (dict_values (COLOURS ?cfg)) = {1}" by (simp add: dict_values_def)
  have 6: "set (dict_values (INDEXS ?cfg)) = {6, 7}" by (simp add: dict_values_def)
  have 7: "METHOD ?cfg = ''all''" by simp
  show ?thesis
    using generate_header_layout [OF 1 2 3 4] unfolding 5 6 7 .
qed

subsection \<open>Binary digit strings\<close>

lemma bits_value_snoc:
  "bits_value (s @ [c]) = 2 * bits_value s + (if c = CHR ''1'' then 1 else 0)"
  by (simp add: bits_value_def)

lemma bits_value_Nil [simp]: "bits_value [] = 0"
  by (simp add: bits_value_def)

lemma bits_value_append:
  "bits_value (s @ t) = bits_value s * 2 ^ length t + bits_value t"
proof (induction t rule: rev_induct)
  case Nil
  show ?case by simp
next
  case (snoc c t)
  have "bits_value (s @ t @ [c]) = 2 * bits_value (s @ t) + (if c = CHR ''1'' then 1 else 0)"
    using bits_value_snoc [of "s @ t" c] by simp
  then show ?case by (simp add: snoc.IH bits_value_snoc algebra_simps)
qed

lemma bits_value_less: "bits_value s < 2 ^ length s"
proof (induction s rule: rev_induct)
  case Nil
  show ?case by simp
next
  case (snoc c s)
  then show ?case by (simp add: bits_value_snoc)
qed

lemma length_fixed_bits [simp]: "length (fixed_bits w n) = w"
  by (induction w arbitrary: n) simp_all

lemma is_bit_bit_char [simp]: "is_bit (bit_char d)"
  by (simp add: is_bit_def bit_char_def)

lemma fixed_bits_is_bit [simp]: "list_all is_bit (fixed_bits w n)"
  by (induction w arbitrary: n) simp_all

lemma fixed_bits_zero: "fixed_bits w 0 = replicate w CHR ''0''"
  by (induction w) (simp_all add: bit_char_def replicate_append_same)

lemma fixed_bits_bits_value:
  "list_all is_bit s \<Longrightarrow> fixed_bits (length s) (bits_value s) = s"
proof (induction s rule: rev_induct)
  case Nil
  show ?case by simp
next
  case (snoc c s)
  then have "is_bit c" and s: "fixed_bits (length s) (bits_value s) = s" by simp_all
  then show ?case
    by (auto simp: bits_value_snoc is_bit_def bit_char_def)
qed

lemma bits_value_fixed_bits: "bits_value (fixed_bits w n) = n mod 2 ^ w"
proof (induction w arbitrary: n)
  case 0
  show ?case by simp
next
  case (Suc w)
  have "(if bit_char (n mod 2) = CHR ''1'' then 1 else 0) = n mod 2"
    by (auto simp: bit_char_def)
  then have "bits_value (fixed_bits (Suc w) n) = 2 * (n div 2 mod 2 ^ w) + n mod 2"
    by (simp add: bits_value_snoc Suc.IH)
  also have "\<dots> = n mod 2 ^ Suc w"
    by (simp add: mod_mult2_eq)
  finally show ?case .
qed

lemma zfill_snoc: "s \<noteq> [] \<Longrightarrow> zfill (Suc w) (s @ [c]) = zfill w s @ [c]"
  by (simp add: zfill_def)

lemma bin_digits_nonempty [simp]: "bin_digits n \<noteq> []"
  by (subst bin_digits.simps) simp

lemma zfill_bin_digits:
  "n < 2 ^ w \<Longrightarrow> 0 < w \<Longrightarrow> zfill w (bin_digits n) = fixed_bits w n"
proof (induction w arbitrary: n)
  case 0
  then show ?case by simp
next
  case (Suc w)
  show ?case
  proof (cases "n < 2")
    case True
    then have "bin_digits n = [bit_char n]" by (subst bin_digits.simps) simp
    moreover from True have "n div 2 = 0" "n mod 2 = n" by simp_all
    ultimately show ?thesis
      by (simp add: zfill_def fixed_bits_zero)
  next
    case False
    then have bd: "bin_digits n = bin_digits (n div 2) @ [bit_char (n mod 2)]"
      by (subst bin_digits.simps) simp
    from False Suc.prems have w: "0 < w" by (cases w) auto
    from Suc.prems have "n div 2 < 2 ^ w" by auto
    from Suc.IH [OF this w] show ?thesis
      by (simp add: bd zfill_snoc)
  qed
qed

lemma length_bin_digits: "length (bin_digits n) = max 1 (bit_length n)"
proof (induction n rule: bin_digits.induct)
  case (1 n)
  show ?case
  proof (cases "n < 2")
    case True
    then have "n = 0 \<or> n = 1" by auto
    then have "bit_length n \<le> 1"
      by (auto simp: bit_length.simps [of 0] bit_length.simps [of 1] bit_length.simps [of "Suc 0"])
    with True show ?thesis by (subst bin_digits.simps) simp
  next
    case False
    then have "bit_length (n div 2) \<ge> 1"
      by (subst bit_length.simps) auto
    with False 1 show ?thesis
      by (subst bin_digits.simps, subst bit_length.simps) simp
  qed
qed

lemma bin_digits_is_bit [simp]: "list_all is_bit (bin_digits n)"
proof (induction n rule: bin_digits.induct)
  case (1 n)
  then show ?case by (subst bin_digits.simps) simp
qed

lemma less_two_power_bit_length: "n < 2 ^ bit_length n"
proof (induction n rule: bit_length.induct)
  case (1 n)
  show ?case
  proof (cases "n = 0")
    case True then show ?thesis by simp
  next
    case False
    with 1 have "n div 2 < 2 ^ bit_length (n div 2)" by simp
    then have "n < 2 * 2 ^ bit_length (n div 2)" by linarith
    with False show ?thesis by (subst bit_length.simps) simp
  qed
qed

lemma bit_length_le: "n < 2 ^ w \<Longrightarrow> bit_length n \<le> w"
proof (induction w arbitrary: n)
  case 0
  then show ?case by (simp add: bit_length.simps [of 0])
next
  case (Suc w)
  then have "n div 2 < 2 ^ w" by auto
  from Suc.IH [OF this] show ?case by (subst bit_length.simps) simp
qed

lemma bit_length_mono: "m \<le> n \<Longrightarrow> bit_length m \<le> bit_length n"
  using bit_length_le [of m "bit_length n"] less_two_power_bit_length [of n] by simp

lemma fixed_bits_nth:
  "j < w \<Longrightarrow> fixed_bits w n ! j = bit_char (n div 2 ^ (w - 1 - j) mod 2)"
proof (induction w arbitrary: n)
  case 0
  then show ?case by simp
next
  case (Suc w)
  show ?case
  proof (cases "j = w")
    case True
    then show ?thesis by (simp add: nth_append)
  next
    case False
    with Suc.prems have j: "j < w" by simp
    from j have e: "w - j = Suc (w - 1 - j)" by simp
    have "n div 2 div 2 ^ (w - 1 - j) = n div 2 ^ (w - j)"
      unfolding e by (simp add: div_mult2_eq)
    then have "fixed_bits w (n div 2) ! j = bit_char (n div 2 ^ (w - j) mod 2)"
      using Suc.IH [OF j, of "n div 2"] by simp
    with j show ?thesis
      by (simp add: nth_append)
  qed
qed

subsection \<open>The payload builder\<close>

lemma zfill_zfill: "w1 \<le> w2 \<Longrightarrow> zfill w2 (zfill w1 s) = zfill w2 s"
proof -
  assume "w1 \<le> w2"
  then have "w2 - length s = (w2 - (w1 - length s + length s)) + (w1 - length s)" by simp
  then show ?thesis
    unfolding zfill_def by (simp add: replicate_add [symmetric] del: replicate_add)
qed

lemma length_zfill: "length (zfill w s) = max w (length s)"
  by (simp add: zfill_def)

lemma length_integer_conversion_binary:
  "length (integer_conversion_binary n) = max 8 (bit_length n)"
  by (simp add: integer_conversion_binary_def length_zfill length_bin_digits)

lemma str_nat_bit: "length (str_nat (n mod 2)) = 1"
proof -
  have "n mod 2 < 10" by linarith
  then show ?thesis by (subst str_nat.simps) simp
qed

lemma length_concat_singletons:
  "\<forall>s \<in> set xs. length s = 1 \<Longrightarrow> length (concat xs) = length xs"
  by (induction xs) simp_all

lemma generate_numbers_bits:
  "\<exists>noise. generate_numbers coin 0 1 n = Inr noise \<and> length noise = n"
proof -
  let ?xs = "map (\<lambda>i. str_nat (0 + coin i mod (1 - 0 + 1))) [0..<n]"
  have "\<forall>s \<in> set ?xs. length s = 1"
    using str_nat_bit by (auto simp: numeral_2_eq_2)
  from length_concat_singletons [OF this] have "length (concat ?xs) = n" by simp
  then show ?thesis by (simp add: generate_numbers_def)
qed

lemma end_key_fixed:
  assumes "d \<le> capacity"
  shows "zfill (length (integer_conversion_binary capacity)) (integer_conversion_binary d) =
         fixed_bits (max 8 (bit_length capacity)) d"
proof -
  let ?w = "max 8 (bit_length capacity)"
  have "d < 2 ^ bit_length capacity"
    using assms less_two_power_bit_length [of capacity] by simp
  also have "(2::nat) ^ bit_length capacity \<le> 2 ^ ?w" by (simp add: power_increasing)
  finally have d: "d < 2 ^ ?w" .
  have "zfill ?w (integer_conversion_binary d) = zfill ?w (bin_digits d)"
    unfolding integer_conversion_binary_def by (rule zfill_zfill) simp
  also have "\<dots> = fixed_bits ?w d" using d by (intro zfill_bin_digits) simp_all
  finally show ?thesis by (simp add: length_integer_conversion_binary)
qed

lemma generate_message_result:
  assumes enc: "binary_conversion_binary text = Inr data"
  shows "generate_message coin Config text coords =
     (if length coords < max 8 (bit_length (length coords)) + length data
      then Inl (MessageSizeExceeded (max 8 (bit_length (length coords)) + length data - length coords))
      else bind (if NOISE Config
                 then generate_numbers coin 0 1
                        (length coords - (max 8 (bit_length (length coords)) + length data))
                 else Inr [])
             (\<lambda>noise. Inr (fixed_bits (max 8 (bit_length (length coords))) (length data) @ data @ noise)))"
proof (cases "length coords < max 8 (bit_length (length coords)) + length data")
  case True
  then show ?thesis
    by (simp add: generate_message_def enc Let_def length_integer_conversion_binary)
next
  case False
  then have "length data \<le> length coords" by simp
  from end_key_fixed [OF this] False show ?thesis
    by (simp add: generate_message_def enc Let_def length_integer_conversion_binary)
qed

lemma int_base2_fixed_bits:
  "0 < w \<Longrightarrow> n < 2 ^ w \<Longrightarrow> int_base2 (fixed_bits w n) = Inr n"
proof -
  assume w: "0 < w" and n: "n < 2 ^ w"
  have "fixed_bits w n \<noteq> []" using w by (cases w) simp_all
  then show ?thesis using n by (simp add: int_base2_def bits_value_fixed_bits)
qed

lemma generate_message_success:
  assumes enc: "binary_conversion_binary text = Inr data"
      and fit: "max 8 (bit_length (length coords)) + length data \<le> length coords"
  shows "\<exists>prefix noise. generate_message coin Config text coords = Inr (prefix @ data @ noise) \<and>
           length prefix = max 8 (bit_length (length coords)) \<and>
           int_base2 prefix = Inr (length data) \<and>
           length noise = (if NOISE Config
                           then length coords - (max 8 (bit_length (length coords)) + length data)
                           else 0)"
proof -
  let ?w = "max 8 (bit_length (length coords))"
  let ?n = "length coords - (?w + length data)"
  have "length data < 2 ^ bit_length (length coords)"
    using fit less_two_power_bit_length [of "length coords"] by simp
  also have "(2::nat) ^ bit_length (length coords) \<le> 2 ^ ?w" by (simp add: power_increasing)
  finally have d: "length data < 2 ^ ?w" .
  have pre: "int_base2 (fixed_bits ?w (length data)) = Inr (length data)"
    using d by (intro int_base2_fixed_bits) simp_all
  show ?thesis
  proof (cases "NOISE Config")
    case True
    from generate_numbers_bits [of coin ?n] obtain noise where
      "generate_numbers coin 0 1 ?n = Inr noise" "length noise = ?n" by auto
    with True fit pre show ?thesis
      by (simp add: generate_message_result [OF enc] del: fixed_bits.simps) 
        (metis length_fixed_bits)
  next
    case False
    with fit pre have "generate_message coin Config text coords =
        Inr (fixed_bits ?w (length data) @ data @ [])"
      by (simp add: generate_message_result [OF enc])
    with False pre show ?thesis
      by (metis length_fixed_bits list.size(3))
  qed
qed



text \<open>
  C2, as stated, fails: with 100 slots the prefix written is 8 digits wide, while 100 needs
  only 7 binary digits.
\<close>

theorem generate_message_prefix_width_counterexample:
  "binary_conversion_binary [104, 105] = Inr ''0110100001101001'' \<and>
   generate_message zero_coin plain_config [104, 105] (slots_of_length 100) =
     Inr (''00010000'' @ ''0110100001101001'') \<and>
   length ''00010000'' \<noteq> bit_length (length (slots_of_length 100))"
  by code_simp

text \<open>
  C2, amended.  Whenever \<^verbatim>\<open>generate_message\<close> returns, the length prefix it writes
  is as wide as the slot count written by \<^verbatim>\<open>integer_conversion\<close>, which pads to 8
  digits: the width is the larger of 8 and the number of binary digits of the slot count, and
  the prefix reads as the number of data bits.
\<close>

theorem generate_message_prefix_width:
  assumes enc: "binary_conversion_binary text = Inr data"
      and ok: "generate_message coin Config text coords = Inr msg"
  shows "\<exists>prefix noise. msg = prefix @ data @ noise \<and>
           length prefix = max 8 (bit_length (length coords)) \<and>
           int_base2 prefix = Inr (length data)"
proof -
  have "max 8 (bit_length (length coords)) + length data \<le> length coords"
    using ok by (simp add: generate_message_result [OF enc] split: if_splits)
  from generate_message_success [OF enc this, of coin Config] ok show ?thesis
    by auto
qed

theorem generate_message_prefix_width_witness:
  "\<exists>prefix noise. ''000100000110100001101001'' = prefix @ ''0110100001101001'' @ noise \<and>
      length prefix = max 8 (bit_length (length (slots_of_length 100))) \<and>
      int_base2 prefix = Inr (length ''0110100001101001'')"
proof -
  have enc: "binary_conversion_binary [104, 105] = Inr ''0110100001101001''"
    by code_simp
  have ok: "generate_message zero_coin plain_config [104, 105] (slots_of_length 100) =
     Inr ''000100000110100001101001''"
    by code_simp
  from generate_message_prefix_width [OF enc ok] show ?thesis .
qed

subsection \<open>Key derivation\<close>

lemma mset_shuffle: "random_ok R \<Longrightarrow> mset (shuffle R key data) = mset data"
proof -
  assume "random_ok R"
  then have p: "mset (sample_all R key (length data)) = mset [0..<length data]"
    by (simp add: random_ok_def)
  have "mset (shuffle R key data) = image_mset (\<lambda>j. data ! j) (mset (sample_all R key (length data)))"
    by (simp add: shuffle_def)
  also have "\<dots> = mset (map (\<lambda>j. data ! j) [0..<length data])"
    by (simp add: p)
  also have "\<dots> = mset data" by (simp add: map_nth)
  finally show ?thesis .
qed

lemma length_shuffle: "random_ok R \<Longrightarrow> length (shuffle R key data) = length data"
  using mset_shuffle [of R key data] by (metis size_mset)

lemma set_shuffle: "random_ok R \<Longrightarrow> set (shuffle R key data) = set data"
  using mset_shuffle [of R key data] by (metis set_mset_mset)

lemma comprehension_map:
  "\<forall>x \<in> set xs. f x = Inr (g x) \<Longrightarrow> comprehension f xs = Inr (map g xs)"
  by (induction xs) simp_all

lemma random_ok_identity: "random_ok identity_random"
  by (simp add: random_ok_def identity_random_def)

lemma generate_context_zero:
  assumes ok: "random_ok R"
      and big: "15 \<le> xsize Img * ysize Img"
      and zero: "\<forall>p \<in> set (bootstrap_pixels R key_text Img). \<forall>v \<in> set p. v = 0"
  shows "\<exists>coords. generate_context R key_text Img (image_size Img) 16 = Inr (coords, 0)"
proof -
  let ?key1 = "decimal_encoding key_text * (xsize Img * ysize Img * 99)"
  let ?grid = "List.product [0..<xsize Img] [0..<ysize Img]"
  let ?coords = "shuffle R ?key1 ?grid"
  let ?g = "\<lambda>point. pixel_at Img (?coords ! point)"
  have len: "length ?coords = xsize Img * ysize Img"
    by (simp add: length_shuffle [OF ok])
  have inside: "fst xy < xsize Img \<and> snd xy < ysize Img" if "xy \<in> set ?coords" for xy
    using that by (auto simp: set_shuffle [OF ok])
  have step: "bind (py_index ?coords point) (getpixel Img) = Inr (?g point)"
    if "point \<in> set [0..<16 - 1]" for point
  proof -
    from that big len have "point < length ?coords" by simp
    then show ?thesis
      using inside [of "?coords ! point"] by (simp add: py_index_def getpixel_def)
  qed
  have pixels: "comprehension (\<lambda>point. bind (py_index ?coords point) (getpixel Img)) [0..<16 - 1]
      = Inr (map ?g [0..<16 - 1])"
    by (rule comprehension_map) (use step in blast)
  have bp: "map ?g [0..<16 - 1] = bootstrap_pixels R key_text Img"
    by (simp add: bootstrap_pixels_def)
  have "\<forall>p \<in> set (bootstrap_pixels R key_text Img). sum_list p = 0"
    using zero by (simp add: sum_list_eq_0_iff)
  then have s0: "sum_list (map sum_list (bootstrap_pixels R key_text Img)) = 0"
    by (simp add: sum_list_eq_0_iff)
  show ?thesis
    unfolding generate_context_def
    by (simp add: image_size_def Let_def pixels [simplified] bp [simplified] s0)
qed

text \<open>
  C10.  On an image of at least 15 pixels in which the 15 sampled bootstrap pixels have
  all channels zero, \<^verbatim>\<open>generate_context\<close> returns the derived key 0 whatever the key
  text is: for any two key texts the two runs return the same derived key, 0.
\<close>

theorem generate_context_zero_key:
  assumes ok: "random_ok R"
      and big: "15 \<le> xsize Img * ysize Img"
      and zero1: "\<forall>p \<in> set (bootstrap_pixels R key1 Img). \<forall>v \<in> set p. v = 0"
      and zero2: "\<forall>p \<in> set (bootstrap_pixels R key2 Img). \<forall>v \<in> set p. v = 0"
  shows "\<exists>coords1 coords2.
           generate_context R key1 Img (image_size Img) 16 = Inr (coords1, 0) \<and>
           generate_context R key2 Img (image_size Img) 16 = Inr (coords2, 0)"
  using generate_context_zero [OF ok big zero1] generate_context_zero [OF ok big zero2]
  by blast

text \<open>The keys "k" and "wrong" on the all-zero image of 10 by 10 pixels.\<close>

theorem generate_context_zero_key_witness:
  "\<exists>coords1 coords2.
     generate_context identity_random [107] zero_image (image_size zero_image) 16
       = Inr (coords1, 0) \<and>
     generate_context identity_random [119, 114, 111, 110, 103] zero_image
       (image_size zero_image) 16 = Inr (coords2, 0)"
proof -
  have big: "15 \<le> xsize zero_image * ysize zero_image"
    by (simp add: zero_image_def)
  have zero: "\<forall>p \<in> set (bootstrap_pixels identity_random k zero_image). \<forall>v \<in> set p. v = 0" for k
    by (auto simp: bootstrap_pixels_def zero_image_def)
  show ?thesis
    by (rule generate_context_zero_key [OF random_ok_identity big zero zero])
qed

subsection \<open>Insertion followed by extraction\<close>

text \<open>
  C1.  The round trip needs \<^verbatim>\<open>data_extract\<close> to return the payload text.  It never
  does: on every image and key it raises, at the latest when it unpacks the \<^verbatim>\<open>None\<close>
  that \<^verbatim>\<open>extract_header\<close> returns; in particular it does so on the image that
  \<^verbatim>\<open>data_insert\<close> produced.
\<close>

theorem data_extract_raises:
  "(\<exists>e. data_extract R Img key = Inl e) \<and> data_extract R Img key \<noteq> Inr (Some text)"
proof -
  have "\<exists>e. data_extract R Img key = Inl e"
  proof (cases "generate_context R key Img (image_size Img) 16")
    case (Inl e)
    then show ?thesis by (simp add: data_extract_def)
  next
    case (Inr r)
    then show ?thesis
      by (cases r) (simp add: data_extract_def extract_header_def unpack_def)
  qed
  then show ?thesis by auto
qed

subsection \<open>The slot planner\<close>

lemma foldl_append_concat:
  "foldl (\<lambda>acc x. acc @ f x) acc xs = acc @ concat (map f xs)"
  by (induction xs arbitrary: acc) simp_all

lemma generate_coords_loop_all:
  "generate_coords_loop (\<lambda>i. Inr colours) indexs acc i cs =
     Inr (acc @ concat (map (\<lambda>c. concat (map (\<lambda>colour.
            map (\<lambda>index. (fst c, snd c, colour, index)) indexs) colours)) cs))"
  by (induction cs arbitrary: acc i) (simp_all add: foldl_append_concat)

lemma generate_coords_loop_random:
  "i + length cs \<le> length sampled \<Longrightarrow>
   generate_coords_loop (py_index sampled) indexs acc i cs =
     Inr (acc @ concat (map (\<lambda>(j, c). concat (map (\<lambda>colour.
            map (\<lambda>index. (fst c, snd c, colour, index)) indexs) (sampled ! j)))
          (enumerate i cs)))"
proof (induction cs arbitrary: acc i)
  case Nil
  show ?case by simp
next
  case (Cons c cs)
  then have i: "i < length sampled" and rest: "Suc i + length cs \<le> length sampled"
    by simp_all
  have "py_index sampled i = Inr (sampled ! i)"
    using i by (simp add: py_index_def)
  then show ?case
    by (simp add: Cons.IH [OF rest] foldl_append_concat)
qed

lemma length_slots_all:
  "length (concat (map (\<lambda>c. concat (map (\<lambda>colour.
      map (\<lambda>index. (fst c, snd c, colour, index)) indexs) colours)) cs)) =
   length cs * length colours * length indexs"
  by (induction cs) (simp_all add: length_concat comp_def sum_list_triv algebra_simps)

lemma length_slots_random:
  "length (concat (map (\<lambda>(j, c). map (\<lambda>index. (fst c, snd c, ch j, index)) indexs)
      (enumerate i cs))) = length cs * length indexs"
  by (induction cs arbitrary: i) simp_all



subsection \<open>The data writer\<close>

lemma integer_conversion_binary_byte:
  "v < 256 \<Longrightarrow> integer_conversion_binary v = fixed_bits 8 v"
  unfolding integer_conversion_binary_def by (rule zfill_bin_digits) simp_all

lemma set_bit_byte:
  assumes j: "j < 8" and b: "is_bit b"
  shows "int_base2 ((fixed_bits 8 v)[j := b]) = Inr (bits_value ((fixed_bits 8 v)[j := b]))"
    and "bits_value ((fixed_bits 8 v)[j := b]) < 256"
    and "fixed_bits 8 (bits_value ((fixed_bits 8 v)[j := b])) = (fixed_bits 8 v)[j := b]"
proof -
  let ?s = "(fixed_bits 8 v)[j := b]"
  have len: "length ?s = 8" by simp
  have bits: "list_all is_bit ?s"
    using b fixed_bits_is_bit [of 8 v]
    unfolding list_all_iff by (metis (no_types, lifting) insert_iff set_update_subset_insert subsetD)
  have ne: "?s \<noteq> []" using len by (metis length_0_conv zero_neq_numeral)
  show "int_base2 ?s = Inr (bits_value ?s)"
    using ne bits unfolding int_base2_def by simp
  show "bits_value ?s < 256"
    using bits_value_less [of ?s] unfolding len by simp
  show "fixed_bits 8 (bits_value ?s) = ?s"
    using fixed_bits_bits_value [OF bits] unfolding len .
qed

lemma channel_bit_le: "channel_bit v k \<le> 1"
  by (simp add: channel_bit_def)

lemma fixed_bits_channel_bit:
  "k < 8 \<Longrightarrow> fixed_bits 8 v ! k = bit_char (channel_bit v k)"
  using fixed_bits_nth [of k 8 v] by (simp add: channel_bit_def)

lemma bit_char_inj: "a \<le> 1 \<Longrightarrow> b \<le> 1 \<Longrightarrow> bit_char a = bit_char b \<Longrightarrow> a = b"
  by (auto simp: bit_char_def split: if_splits)

lemma channel_bit_eqI:
  "k < 8 \<Longrightarrow> fixed_bits 8 v ! k = fixed_bits 8 v' ! k \<Longrightarrow> channel_bit v k = channel_bit v' k"
  by (intro bit_char_inj channel_bit_le) (simp add: fixed_bits_channel_bit)

lemma attach_data_step:
  assumes bytes: "byte_image Img"
      and at: "i < length coords" "coords ! i = (x, y, c, j)"
      and run: "attach_data_loop Img msg coords i ((x, y, c, j) # rest) = Inr Img'"
  shows "\<exists>v'. x < xsize Img \<and> y < ysize Img \<and> c < 3 \<and> j < 8 \<and> i < length msg \<and> v' < 256 \<and>
           is_bit (msg ! i) \<and>
           fixed_bits 8 v' = (fixed_bits 8 (pixel_at Img (x, y) ! c))[j := msg ! i] \<and>
           attach_data_loop
             (Img\<lparr>pixel_at := (pixel_at Img)((x, y) := (pixel_at Img (x, y))[c := v'])\<rparr>)
             msg coords (Suc i) rest = Inr Img'"
proof -
  let ?pixel = "pixel_at Img (x, y)"
  from bytes have plen: "length ?pixel = 3" and pbytes: "\<forall>v \<in> set ?pixel. v < 256"
    by (simp_all add: byte_image_def)
  have xy: "x < xsize Img \<and> y < ysize Img"
    using run by (auto simp: getpixel_def split: if_splits)
  then have gp: "getpixel Img (x, y) = Inr ?pixel" by (simp add: getpixel_def)
  have c: "c < 3"
    using run plen by (auto simp: gp py_index_def split: if_splits)
  then have pc: "py_index ?pixel c = Inr (?pixel ! c)" using plen by (simp add: py_index_def)
  from c plen pbytes have v: "?pixel ! c < 256" by simp
  let ?val = "fixed_bits 8 (?pixel ! c)"
  have icb: "integer_conversion_binary (?pixel ! c) = ?val"
    by (rule integer_conversion_binary_byte [OF v])
  have i: "i < length msg"
    using run by (auto simp: gp pc icb py_index_def [of msg] split: if_splits)
  then have pm: "py_index msg i = Inr (msg ! i)" by (simp add: py_index_def)
  have j: "j < 8"
    using run by (auto simp: gp pc icb pm py_assign_def [of ?val] split: if_splits)
  then have pa: "py_assign ?val j (msg ! i) = Inr (?val[j := msg ! i])"
    by (simp add: py_assign_def)
  let ?val' = "?val[j := msg ! i]"
  have ib: "int_base2 ?val' \<noteq> Inl ValueError"
    using run by (auto simp: gp pc icb pm pa integer_conversion_integer_def simp del: fixed_bits.simps)
  have "msg ! i \<in> set ?val'" using j by (simp add: set_update_memI)
  with ib have b: "is_bit (msg ! i)"
    by (auto simp: int_base2_def list_all_iff split: if_splits)
  note sb = set_bit_byte [OF j b, of "?pixel ! c"]
  let ?v' = "bits_value ?val'"
  have pa2: "py_assign ?pixel c ?v' = Inr (?pixel[c := ?v'])"
    using c plen by (simp add: py_assign_def)
  have pi: "py_index coords i = Inr (x, y, c, j)" using at by (simp add: py_index_def)
  have pp: "putpixel Img (x, y) (?pixel[c := ?v']) =
      Inr (Img\<lparr>pixel_at := (pixel_at Img)((x, y) := ?pixel[c := ?v'])\<rparr>)"
    using xy by (simp add: putpixel_def)
  have "attach_data_loop
          (Img\<lparr>pixel_at := (pixel_at Img)((x, y) := ?pixel[c := ?v'])\<rparr>)
          msg coords (Suc i) rest = Inr Img'"
    using run
    by (simp add: gp pc icb pm pa integer_conversion_integer_def sb(1) pa2 pi pp
        del: fixed_bits.simps)
  with xy c j i sb(2,3) b show ?thesis by blast
qed

lemma drop_eq_Cons:
  assumes "drop i xs = y # ys"
  shows "i < length xs" and "xs ! i = y" and "drop (Suc i) xs = ys"
proof -
  show i: "i < length xs" using assms by (cases "i < length xs") simp_all
  from Cons_nth_drop_Suc [OF i] assms show "xs ! i = y" and "drop (Suc i) xs = ys"
    by simp_all
qed

lemma byte_image_update:
  assumes "byte_image Img" and "v' < 256"
  shows "byte_image (Img\<lparr>pixel_at := (pixel_at Img)(xy := (pixel_at Img xy)[c := v'])\<rparr>)"
proof -
  have wf: "length (pixel_at Img p) = 3 \<and> (\<forall>v \<in> set (pixel_at Img p). v < 256)" for p
    using assms(1) unfolding byte_image_def by blast
  have new: "\<forall>v \<in> set ((pixel_at Img xy)[c := v']). v < 256"
    using wf [of xy] assms(2) set_update_subset_insert [of "pixel_at Img xy" c v'] by blast
  show ?thesis
    unfolding byte_image_def
  proof
    fix p
    show "length (pixel_at (Img\<lparr>pixel_at := (pixel_at Img)(xy := (pixel_at Img xy)[c := v'])\<rparr>) p) = 3 \<and>
      (\<forall>v \<in> set (pixel_at (Img\<lparr>pixel_at := (pixel_at Img)(xy := (pixel_at Img xy)[c := v'])\<rparr>) p).
         v < 256)"
      using wf [of p] wf [of xy] new by (cases "p = xy") simp_all
  qed
qed

lemma attach_data_loop_bytes:
  assumes "byte_image Img" and "rest = drop i coords"
      and "attach_data_loop Img msg coords i rest = Inr Img'"
  shows "byte_image Img' \<and> xsize Img' = xsize Img \<and> ysize Img' = ysize Img"
  using assms
proof (induction rest arbitrary: Img i)
  case Nil
  then show ?case by simp
next
  case (Cons position rest)
  obtain x y c j where p: "position = (x, y, c, j)" by (cases position) auto
  note d = drop_eq_Cons [OF Cons.prems(2) [symmetric]]
  from attach_data_step [OF Cons.prems(1) d(1) d(2) [unfolded p] Cons.prems(3) [unfolded p]]
  obtain v' where v': "v' < 256"
    and run: "attach_data_loop
        (Img\<lparr>pixel_at := (pixel_at Img)((x, y) := (pixel_at Img (x, y))[c := v'])\<rparr>)
        msg coords (Suc i) rest = Inr Img'"
    by blast
  from Cons.IH [OF byte_image_update [OF Cons.prems(1) v'] d(3) [symmetric] run]
  show ?case by simp
qed

lemma attach_data_loop_bits:
  assumes "byte_image Img" and "rest = drop i coords"
      and "attach_data_loop Img msg coords i rest = Inr Img'"
      and "k < 8" and "(a, b, ch, k) \<notin> set rest"
  shows "channel_bit (pixel_at Img' (a, b) ! ch) k = channel_bit (pixel_at Img (a, b) ! ch) k"
  using assms
proof (induction rest arbitrary: Img i)
  case Nil
  then show ?case by simp
next
  case (Cons position rest)
  obtain x y c j where p: "position = (x, y, c, j)" by (cases position) auto
  note d = drop_eq_Cons [OF Cons.prems(2) [symmetric]]
  let ?old = "pixel_at Img (x, y)"
  from attach_data_step [OF Cons.prems(1) d(1) d(2) [unfolded p] Cons.prems(3) [unfolded p]]
  obtain v' where v': "v' < 256" and c: "c < 3" and j: "j < 8"
    and bits: "fixed_bits 8 v' = (fixed_bits 8 (?old ! c))[j := msg ! i]"
    and run: "attach_data_loop
        (Img\<lparr>pixel_at := (pixel_at Img)((x, y) := ?old[c := v'])\<rparr>)
        msg coords (Suc i) rest = Inr Img'"
    by blast
  let ?Img1 = "Img\<lparr>pixel_at := (pixel_at Img)((x, y) := ?old[c := v'])\<rparr>"
  from Cons.prems(5) have notin: "(a, b, ch, k) \<notin> set rest" and ne: "(a, b, ch, k) \<noteq> (x, y, c, j)"
    by (simp_all add: p)
  have IH: "channel_bit (pixel_at Img' (a, b) ! ch) k = channel_bit (pixel_at ?Img1 (a, b) ! ch) k"
    by (rule Cons.IH [OF byte_image_update [OF Cons.prems(1) v'] d(3) [symmetric] run
          Cons.prems(4) notin])
  from Cons.prems(1) have len: "length ?old = 3" by (simp add: byte_image_def)
  have "channel_bit (pixel_at ?Img1 (a, b) ! ch) k = channel_bit (pixel_at Img (a, b) ! ch) k"
  proof (cases "(a, b) = (x, y) \<and> ch = c")
    case False
    then show ?thesis by (auto simp: nth_list_update)
  next
    case True
    with ne have kj: "k \<noteq> j" by simp
    from True c len have "pixel_at ?Img1 (a, b) ! ch = v'" by simp
    moreover have "channel_bit v' k = channel_bit (?old ! c) k"
      by (rule channel_bit_eqI [OF Cons.prems(4)]) (use kj in \<open>simp add: bits\<close>)
    ultimately show ?thesis using True by simp
  qed
  with IH show ?case by simp
qed

lemma attach_data_loop_pixels:
  assumes "byte_image Img" and "rest = drop i coords"
      and "attach_data_loop Img msg coords i rest = Inr Img'"
      and "\<forall>s \<in> set rest. (fst s, fst (snd s), fst (snd (snd s))) \<noteq> (a, b, ch)"
  shows "pixel_at Img' (a, b) ! ch = pixel_at Img (a, b) ! ch"
    and "(\<forall>s \<in> set rest. (fst s, fst (snd s)) \<noteq> (a, b)) \<Longrightarrow>
           pixel_at Img' (a, b) = pixel_at Img (a, b)"
  using assms
proof (induction rest arbitrary: Img i)
  case Nil
  { case 1 then show ?case by simp }
  { case 2 then show ?case by simp }
next
  case (Cons position rest)
  obtain x y c j where p: "position = (x, y, c, j)" by (cases position) auto
  { case 1
    note d = drop_eq_Cons [OF 1(2) [symmetric]]
    from attach_data_step [OF 1(1) d(1) d(2) [unfolded p] 1(3) [unfolded p]]
    obtain v' where v': "v' < 256"
      and run: "attach_data_loop
          (Img\<lparr>pixel_at := (pixel_at Img)((x, y) := (pixel_at Img (x, y))[c := v'])\<rparr>)
          msg coords (Suc i) rest = Inr Img'"
      by blast
    from 1(4) have rest: "\<forall>s \<in> set rest. (fst s, fst (snd s), fst (snd (snd s))) \<noteq> (a, b, ch)"
      and ne: "(x, y, c) \<noteq> (a, b, ch)" by (simp_all add: p)
    from Cons.IH(1) [OF byte_image_update [OF 1(1) v'] d(3) [symmetric] run rest] ne
    show ?case by (auto simp: nth_list_update) }
  { case 2
    note d = drop_eq_Cons [OF 2(3) [symmetric]]
    from attach_data_step [OF 2(2) d(1) d(2) [unfolded p] 2(4) [unfolded p]]
    obtain v' where v': "v' < 256"
      and run: "attach_data_loop
          (Img\<lparr>pixel_at := (pixel_at Img)((x, y) := (pixel_at Img (x, y))[c := v'])\<rparr>)
          msg coords (Suc i) rest = Inr Img'"
      by blast
    from 2(5) have rest3: "\<forall>s \<in> set rest. (fst s, fst (snd s), fst (snd (snd s))) \<noteq> (a, b, ch)"
      by (simp add: p)
    from 2(1) have rest: "\<forall>s \<in> set rest. (fst s, fst (snd s)) \<noteq> (a, b)"
      and ne: "(x, y) \<noteq> (a, b)" by (simp_all add: p)
    from Cons.IH(2) [OF rest byte_image_update [OF 2(2) v'] d(3) [symmetric] run rest3] ne
    show ?case by auto }
qed

lemma attach_data_loop_written:
  assumes "byte_image Img" and "rest = drop i coords"
      and "attach_data_loop Img msg coords i rest = Inr Img'"
      and "k < length rest"
      and "\<forall>k'. k < k' \<and> k' < length rest \<longrightarrow> rest ! k' \<noteq> rest ! k"
  shows "case rest ! k of (x, y, c, j) \<Rightarrow>
           bit_char (channel_bit (pixel_at Img' (x, y) ! c) j) = msg ! (i + k)"
  using assms
proof (induction rest arbitrary: Img i k)
  case Nil
  then show ?case by simp
next
  case (Cons position rest)
  obtain x y c j where p: "position = (x, y, c, j)" by (cases position) auto
  note d = drop_eq_Cons [OF Cons.prems(2) [symmetric]]
  let ?old = "pixel_at Img (x, y)"
  from attach_data_step [OF Cons.prems(1) d(1) d(2) [unfolded p] Cons.prems(3) [unfolded p]]
  obtain v' where v': "v' < 256" and c: "c < 3" and j: "j < 8"
    and bits: "fixed_bits 8 v' = (fixed_bits 8 (?old ! c))[j := msg ! i]"
    and run: "attach_data_loop
        (Img\<lparr>pixel_at := (pixel_at Img)((x, y) := ?old[c := v'])\<rparr>)
        msg coords (Suc i) rest = Inr Img'"
    by blast
  let ?Img1 = "Img\<lparr>pixel_at := (pixel_at Img)((x, y) := ?old[c := v'])\<rparr>"
  note b1 = byte_image_update [OF Cons.prems(1) v', of "(x, y)" c]
  show ?case
  proof (cases k)
    case 0
    have "(x, y, c, j) \<notin> set rest"
    proof
      assume "(x, y, c, j) \<in> set rest"
      then obtain m where "m < length rest" "rest ! m = (x, y, c, j)"
        by (auto simp: in_set_conv_nth)
      with Cons.prems(5) [rule_format, of "Suc m"] 0 p show False by simp
    qed
    from attach_data_loop_bits [OF b1 d(3) [symmetric] run j this]
    have "channel_bit (pixel_at Img' (x, y) ! c) j = channel_bit (pixel_at ?Img1 (x, y) ! c) j" .
    moreover from Cons.prems(1) have "length ?old = 3" by (simp add: byte_image_def)
    with c have "pixel_at ?Img1 (x, y) ! c = v'" by simp
    moreover have "bit_char (channel_bit v' j) = msg ! i"
      using fixed_bits_channel_bit [OF j, of v'] j by (simp add: bits)
    ultimately show ?thesis using 0 p by simp
  next
    case (Suc k0)
    with Cons.prems(4) have k0: "k0 < length rest" by simp
    have last: "\<forall>k'. k0 < k' \<and> k' < length rest \<longrightarrow> rest ! k' \<noteq> rest ! k0"
    proof (intro allI impI)
      fix k' assume "k0 < k' \<and> k' < length rest"
      with Cons.prems(5) [rule_format, of "Suc k'"] Suc show "rest ! k' \<noteq> rest ! k0" by simp
    qed
    from Cons.IH [OF b1 d(3) [symmetric] run k0 last] Suc show ?thesis by simp
  qed
qed

lemma attach_data_loop_Cons:
  assumes bytes: "byte_image Img"
      and at: "i < length coords" "coords ! i = (x, y, c, j)"
      and inside: "x < xsize Img" "y < ysize Img" "c < 3" "j < 8"
      and msg: "i < length msg" "is_bit (msg ! i)"
  shows "attach_data_loop Img msg coords i ((x, y, c, j) # rest) =
         attach_data_loop
           (Img\<lparr>pixel_at := (pixel_at Img)((x, y) := (pixel_at Img (x, y))
              [c := bits_value ((fixed_bits 8 (pixel_at Img (x, y) ! c))[j := msg ! i])])\<rparr>)
           msg coords (Suc i) rest"
proof -
  let ?pixel = "pixel_at Img (x, y)"
  from bytes have plen: "length ?pixel = 3" and pbytes: "\<forall>v \<in> set ?pixel. v < 256"
    by (simp_all add: byte_image_def)
  have gp: "getpixel Img (x, y) = Inr ?pixel" using inside by (simp add: getpixel_def)
  have pc: "py_index ?pixel c = Inr (?pixel ! c)" using inside plen by (simp add: py_index_def)
  from inside plen pbytes have v: "?pixel ! c < 256" by simp
  let ?val = "fixed_bits 8 (?pixel ! c)"
  have icb: "integer_conversion_binary (?pixel ! c) = ?val"
    by (rule integer_conversion_binary_byte [OF v])
  have pm: "py_index msg i = Inr (msg ! i)" using msg by (simp add: py_index_def)
  have pa: "py_assign ?val j (msg ! i) = Inr (?val[j := msg ! i])"
    using inside by (simp add: py_assign_def)
  note sb = set_bit_byte [OF inside(4) msg(2), of "?pixel ! c"]
  let ?v' = "bits_value (?val[j := msg ! i])"
  have pa2: "py_assign ?pixel c ?v' = Inr (?pixel[c := ?v'])"
    using inside plen by (simp add: py_assign_def)
  have pi: "py_index coords i = Inr (x, y, c, j)" using at by (simp add: py_index_def)
  have pp: "putpixel Img (x, y) (?pixel[c := ?v']) =
      Inr (Img\<lparr>pixel_at := (pixel_at Img)((x, y) := ?pixel[c := ?v'])\<rparr>)"
    using inside by (simp add: putpixel_def)
  show ?thesis
    by (simp add: gp pc icb pm pa integer_conversion_integer_def sb(1) pa2 pi pp
        del: fixed_bits.simps)
qed

lemma attach_data_loop_succeeds:
  assumes "byte_image Img" and "rest = drop i coords"
      and "\<forall>s \<in> set rest. fst s < xsize Img \<and> fst (snd s) < ysize Img \<and>
             fst (snd (snd s)) < 3 \<and> snd (snd (snd s)) < 8"
      and "i + length rest \<le> length msg" and "list_all is_bit msg"
  shows "\<exists>Img'. attach_data_loop Img msg coords i rest = Inr Img'"
  using assms
proof (induction rest arbitrary: Img i)
  case Nil
  then show ?case by simp
next
  case (Cons position rest)
  obtain x y c j where p: "position = (x, y, c, j)" by (cases position) auto
  note d = drop_eq_Cons [OF Cons.prems(2) [symmetric]]
  from Cons.prems(3) have inside: "x < xsize Img" "y < ysize Img" "c < 3" "j < 8"
    by (simp_all add: p)
  from Cons.prems(4) have i: "i < length msg" by simp
  with Cons.prems(5) have b: "is_bit (msg ! i)" by (simp add: list_all_length)
  let ?v' = "bits_value ((fixed_bits 8 (pixel_at Img (x, y) ! c))[j := msg ! i])"
  let ?Img1 = "Img\<lparr>pixel_at := (pixel_at Img)((x, y) := (pixel_at Img (x, y))[c := ?v'])\<rparr>"
  have step: "attach_data_loop Img msg coords i (position # rest) =
      attach_data_loop ?Img1 msg coords (Suc i) rest"
    unfolding p by (rule attach_data_loop_Cons [OF Cons.prems(1) d(1) d(2) [unfolded p] inside i b])
  have v': "?v' < 256" by (rule set_bit_byte(2) [OF inside(4) b])
  have rest: "\<forall>s \<in> set rest. fst s < xsize ?Img1 \<and> fst (snd s) < ysize ?Img1 \<and>
             fst (snd (snd s)) < 3 \<and> snd (snd (snd s)) < 8"
    using Cons.prems(3) by simp
  have fit: "Suc i + length rest \<le> length msg" using Cons.prems(4) by simp
  from Cons.IH [OF byte_image_update [OF Cons.prems(1) v'] d(3) [symmetric] rest fit Cons.prems(5)]
  show ?case unfolding step .
qed

lemma attach_data_succeeds:
  assumes "byte_image Img"
      and "\<forall>s \<in> set coords. fst s < xsize Img \<and> fst (snd s) < ysize Img \<and>
             fst (snd (snd s)) < 3 \<and> snd (snd (snd s)) < 8"
      and "NOISE Config \<longrightarrow> length coords \<le> length binary_message"
      and "list_all is_bit binary_message"
  shows "\<exists>Img'. attach_data Img Config binary_message coords = Inr Img'"
proof -
  let ?written = "if NOISE Config then coords else take (length binary_message) coords"
  have d: "?written = drop 0 ?written" by simp
  have inside: "\<forall>s \<in> set ?written. fst s < xsize Img \<and> fst (snd s) < ysize Img \<and>
             fst (snd (snd s)) < 3 \<and> snd (snd (snd s)) < 8"
    using assms(2) by (auto dest: in_set_takeD)
  have fit: "0 + length ?written \<le> length binary_message" using assms(3) by simp
  from attach_data_loop_succeeds [OF assms(1) d inside fit assms(4)]
  show ?thesis by (auto simp: attach_data_def Let_def)
qed

lemma byte_image_zero: "byte_image zero_image"
  by (simp add: byte_image_def zero_image_def)



subsection \<open>Embedding the header\<close>

text \<open>
  The loop of \<^verbatim>\<open>attach_header\<close> runs over \<^verbatim>\<open>coords[:length - 1]\<close>, so it never
  touches the pixel at the coordinate of the last header bit, although this coordinate is
  removed from the list that is returned.
\<close>

lemma attach_header_loop_untouched:
  assumes "attach_header_loop Img header coords colours i rest = Inr Img'"
      and "\<forall>k. i \<le> k \<and> k < i + length rest \<and> k < length coords \<longrightarrow> coords ! k \<noteq> xy"
  shows "pixel_at Img' xy = pixel_at Img xy"
  using assms
proof (induction rest arbitrary: Img i)
  case Nil
  then show ?case by simp
next
  case (Cons position rest)
  from Cons.prems(1) obtain pixel' Img1 where
    i: "i < length coords" and put: "putpixel Img (coords ! i) pixel' = Inr Img1"
    and run: "attach_header_loop Img1 header coords colours (Suc i) rest = Inr Img'"
    by (auto simp: bind_eq_Inr Let_def py_index_def [of coords] split: if_splits)
  from Cons.prems(2) i have ne: "coords ! i \<noteq> xy"
    and rest: "\<forall>k. Suc i \<le> k \<and> k < Suc i + length rest \<and> k < length coords \<longrightarrow> coords ! k \<noteq> xy"
    by simp_all
  from put ne have "pixel_at Img1 xy = pixel_at Img xy"
    by (auto simp: putpixel_def split: if_splits)
  with Cons.IH [OF run rest] show ?case by simp
qed

lemma attach_header_skips_last:
  assumes run: "attach_header R Img key header coords = Inr (cut_coords, Img')"
      and len: "length header = 12" "12 \<le> length coords"
      and dist: "distinct coords"
  shows "cut_coords = drop 12 coords \<and> pixel_at Img' (coords ! 11) = pixel_at Img (coords ! 11)"
proof -
  from run len obtain colours where
    loop: "attach_header_loop Img header coords colours 0 (take 11 coords) = Inr Img'"
    and cut: "cut_coords = drop 12 coords"
    by (auto simp: attach_header_def Let_def bind_eq_Inr)
  have "\<forall>k. 0 \<le> k \<and> k < 0 + length (take 11 coords) \<and> k < length coords \<longrightarrow>
      coords ! k \<noteq> coords ! 11"
    using dist len by (auto simp: nth_eq_iff_index_eq)
  from attach_header_loop_untouched [OF loop this] cut show ?thesis by simp
qed

text \<open>
  C3.  The header of the default configuration is embedded into the all-zero image along
  twelve coordinates, every bit on channel 0.  All twelve coordinates are consumed, but only
  the first eleven header bits are written: the last header bit is 1, and the pixel at the
  twelfth coordinate still has least-significant bit 0.
\<close>

theorem attach_header_last_bit_unwritten:
  "(case attach_header identity_random zero_image 0 default_header twelve_coords of
      Inl e \<Rightarrow> False
    | Inr (cut_coords, Img') \<Rightarrow>
        cut_coords = [] \<and>
        map (\<lambda>xy. bit_char (pixel_at Img' xy ! 0 mod 2)) twelve_coords =
          take 11 default_header @ ''0'' \<and>
        pixel_at Img' (twelve_coords ! 11) = pixel_at zero_image (twelve_coords ! 11)) \<and>
   default_header ! 11 = CHR ''1''"
  by code_simp

subsection \<open>The UTF-8 codec\<close>

lemma decode_one:
  assumes w: "utf8_width b0 = Suc (length trail)"
      and sc: "utf8_scalar b0 trail = Inr c"
  shows "utf8_decode (b0 # trail @ rest) = bind (utf8_decode rest) (\<lambda>cs. Inr (c # cs))"
  using w sc by (simp add: Let_def)

lemma encode_cp_1:
  assumes "c < 0x80"
  shows "utf8_width c = Suc (length ([]::nat list))" "utf8_scalar c [] = Inr c"
  using assms by (simp_all add: utf8_width_def utf8_scalar_def)

lemma encode_cp_2:
  assumes "0x80 \<le> c" "c < 0x800"
  shows "utf8_width (0xC0 + c div 64) = Suc (length [0x80 + c mod 64])"
    and "utf8_scalar (0xC0 + c div 64) [0x80 + c mod 64] = Inr c"
proof -
  have d: "2 \<le> c div 64" "c div 64 < 32" using assms by arith+
  show "utf8_width (0xC0 + c div 64) = Suc (length [0x80 + c mod 64])"
    using d by (simp add: utf8_width_def)
  have "c div 64 * 64 + c mod 64 = c" by simp
  then show "utf8_scalar (0xC0 + c div 64) [0x80 + c mod 64] = Inr c"
    by (simp add: utf8_scalar_def is_cont_def)
qed

lemma split3: "(c::nat) = c div 4096 * 4096 + c div 64 mod 64 * 64 + c mod 64"
proof -
  have "c mod (64 * 64) = 64 * (c div 64 mod 64) + c mod 64" by (rule mod_mult2_eq)
  then have "c mod 4096 = c div 64 mod 64 * 64 + c mod 64" by simp
  moreover have "c = c div 4096 * 4096 + c mod 4096" by simp
  ultimately show ?thesis by linarith
qed

lemma split4:
  "(c::nat) = c div 262144 * 262144 + c div 4096 mod 64 * 4096 + c div 64 mod 64 * 64 + c mod 64"
proof -
  have "c mod (4096 * 64) = 4096 * (c div 4096 mod 64) + c mod 4096" by (rule mod_mult2_eq)
  then have "c mod 262144 = c div 4096 mod 64 * 4096 + c mod 4096" by simp
  moreover have "c mod (64 * 64) = 64 * (c div 64 mod 64) + c mod 64" by (rule mod_mult2_eq)
  then have "c mod 4096 = c div 64 mod 64 * 64 + c mod 64" by simp
  moreover have "c = c div 262144 * 262144 + c mod 262144" by simp
  ultimately show ?thesis by linarith
qed

lemma div_bound: "(c::nat) < k * n \<Longrightarrow> c div n < k"
  by (simp add: less_mult_imp_div_less)

lemma utf8_scalar_3:
  "is_cont b1 \<Longrightarrow> is_cont b2 \<Longrightarrow>
   c = (b0 - 0xE0) * 4096 + (b1 - 0x80) * 64 + (b2 - 0x80) \<Longrightarrow>
   0x800 \<le> c \<Longrightarrow> \<not> (0xD800 \<le> c \<and> c < 0xE000) \<Longrightarrow>
   utf8_scalar b0 [b1, b2] = Inr c"
  by (simp add: utf8_scalar_def Let_def)

lemma utf8_scalar_4:
  "is_cont b1 \<Longrightarrow> is_cont b2 \<Longrightarrow> is_cont b3 \<Longrightarrow>
   c = (b0 - 0xF0) * 262144 + (b1 - 0x80) * 4096 + (b2 - 0x80) * 64 + (b3 - 0x80) \<Longrightarrow>
   0x10000 \<le> c \<Longrightarrow> c < 0x110000 \<Longrightarrow>
   utf8_scalar b0 [b1, b2, b3] = Inr c"
  by (simp add: utf8_scalar_def Let_def)

lemma is_cont_low: "is_cont (0x80 + n mod 64)"
  by (simp add: is_cont_def)

lemma encode_cp_3:
  assumes "0x800 \<le> c" "c < 0x10000" "\<not> (0xD800 \<le> c \<and> c < 0xE000)"
  shows "utf8_width (0xE0 + c div 4096) =
           Suc (length [0x80 + c div 64 mod 64, 0x80 + c mod 64])"
    and "utf8_scalar (0xE0 + c div 4096) [0x80 + c div 64 mod 64, 0x80 + c mod 64] = Inr c"
proof -
  have d: "c div 4096 < 16" using assms(2) by (intro div_bound) simp
  show "utf8_width (0xE0 + c div 4096) =
           Suc (length [0x80 + c div 64 mod 64, 0x80 + c mod 64])"
    using d by (simp add: utf8_width_def)
  have val: "c = (0xE0 + c div 4096 - 0xE0) * 4096 + (0x80 + c div 64 mod 64 - 0x80) * 64 +
      (0x80 + c mod 64 - 0x80)"
    using split3 [of c] by simp
  show "utf8_scalar (0xE0 + c div 4096)
      [0x80 + c div 64 mod 64, 0x80 + c mod 64] = Inr c"
    by (rule utf8_scalar_3 [OF is_cont_low is_cont_low val assms(1,3)])
qed

lemma encode_cp_4:
  assumes "0x10000 \<le> c" "c < 0x110000"
  shows "utf8_width (0xF0 + c div 262144) =
           Suc (length [0x80 + c div 4096 mod 64, 0x80 + c div 64 mod 64, 0x80 + c mod 64])"
    and "utf8_scalar (0xF0 + c div 262144)
           [0x80 + c div 4096 mod 64, 0x80 + c div 64 mod 64, 0x80 + c mod 64] = Inr c"
proof -
  have d: "c div 262144 < 5" using assms(2) by (intro div_bound) simp
  show "utf8_width (0xF0 + c div 262144) =
           Suc (length [0x80 + c div 4096 mod 64, 0x80 + c div 64 mod 64, 0x80 + c mod 64])"
    using d by (simp add: utf8_width_def)
  have val: "c = (0xF0 + c div 262144 - 0xF0) * 262144 +
      (0x80 + c div 4096 mod 64 - 0x80) * 4096 + (0x80 + c div 64 mod 64 - 0x80) * 64 +
      (0x80 + c mod 64 - 0x80)"
    using split4 [of c] by simp
  show "utf8_scalar (0xF0 + c div 262144)
      [0x80 + c div 4096 mod 64, 0x80 + c div 64 mod 64, 0x80 + c mod 64] = Inr c"
    by (rule utf8_scalar_4 [OF is_cont_low is_cont_low is_cont_low val assms])
qed

lemma decode_encode_cp:
  assumes c: "c < 0x110000" and enc: "utf8_encode_cp c = Inr bs"
  shows "utf8_decode (bs @ rest) = bind (utf8_decode rest) (\<lambda>cs. Inr (c # cs))"
proof -
  consider "c < 0x80" | "0x80 \<le> c" "c < 0x800"
    | "0x800 \<le> c" "c < 0x10000" | "0x10000 \<le> c"
    by linarith
  then show ?thesis
  proof cases
    case 1
    with enc have "bs = [c]" by (simp add: utf8_encode_cp_def)
    with decode_one [OF encode_cp_1 [OF 1], of rest] show ?thesis by simp
  next
    case 2
    with enc have "bs = [0xC0 + c div 64, 0x80 + c mod 64]"
      by (simp add: utf8_encode_cp_def)
    with decode_one [OF encode_cp_2 [OF 2], of rest] show ?thesis by simp
  next
    case 3
    with enc have ns: "\<not> (0xD800 \<le> c \<and> c < 0xE000)"
      and "bs = [0xE0 + c div 4096, 0x80 + c div 64 mod 64, 0x80 + c mod 64]"
      by (auto simp: utf8_encode_cp_def split: if_splits)
    with decode_one [OF encode_cp_3 [OF 3 ns], of rest] show ?thesis by simp
  next
    case 4
    with enc have "bs = [0xF0 + c div 262144, 0x80 + c div 4096 mod 64,
        0x80 + c div 64 mod 64, 0x80 + c mod 64]"
      by (simp add: utf8_encode_cp_def)
    with decode_one [OF encode_cp_4 [OF 4 c], of rest] show ?thesis by simp
  qed
qed

lemma decode_encode:
  "is_text t \<Longrightarrow> utf8_encode t = Inr bs \<Longrightarrow> utf8_decode bs = Inr t"
proof (induction t arbitrary: bs)
  case Nil
  then show ?case by simp
next
  case (Cons c t)
  from Cons.prems(2) obtain b r where
    b: "utf8_encode_cp c = Inr b" and r: "utf8_encode t = Inr r" and bs: "bs = b @ r"
    by (auto simp: bind_eq_Inr)
  from Cons.prems(1) have c: "c < 0x110000" and t: "is_text t" by (simp_all add: is_text_def)
  from decode_encode_cp [OF c b, of r] Cons.IH [OF t r] bs show ?case by simp
qed

lemma encode_cp_bytes:
  assumes c: "c < 0x110000" and enc: "utf8_encode_cp c = Inr bs"
  shows "bs \<noteq> [] \<and> (\<forall>b \<in> set bs. b < 256)"
proof -
  have low: "0x80 + n mod 64 < (256::nat)" for n
  proof -
    have "n mod 64 < 64" by simp
    then show ?thesis by linarith
  qed
  consider "c < 0x80" | "0x80 \<le> c" "c < 0x800"
    | "0x800 \<le> c" "c < 0x10000" | "0x10000 \<le> c"
    by linarith
  then show ?thesis
  proof cases
    case 1
    with enc have "bs = [c]" by (simp add: utf8_encode_cp_def)
    with 1 show ?thesis by simp
  next
    case 2
    with enc have bs: "bs = [0xC0 + c div 64, 0x80 + c mod 64]"
      by (simp add: utf8_encode_cp_def)
    have "c div 64 < 32" using 2(2) by (intro div_bound) simp
    then have "0xC0 + c div 64 < 256" by linarith
    with low [of c] show ?thesis unfolding bs by simp
  next
    case 3
    with enc have bs: "bs = [0xE0 + c div 4096, 0x80 + c div 64 mod 64, 0x80 + c mod 64]"
      by (auto simp: utf8_encode_cp_def split: if_splits)
    have "c div 4096 < 16" using 3(2) by (intro div_bound) simp
    then have "0xE0 + c div 4096 < 256" by linarith
    with low [of c] low [of "c div 64"] show ?thesis unfolding bs by simp
  next
    case 4
    with enc have bs: "bs = [0xF0 + c div 262144, 0x80 + c div 4096 mod 64,
        0x80 + c div 64 mod 64, 0x80 + c mod 64]"
      by (simp add: utf8_encode_cp_def)
    have "c div 262144 < 5" using c by (intro div_bound) simp
    then have "0xF0 + c div 262144 < 256" by linarith
    with low [of c] low [of "c div 64"] low [of "c div 4096"] show ?thesis unfolding bs by simp
  qed
qed

lemma encode_bytes:
  "is_text t \<Longrightarrow> utf8_encode t = Inr bs \<Longrightarrow>
     (\<forall>b \<in> set bs. b < 256) \<and> (t \<noteq> [] \<longrightarrow> bs \<noteq> [])"
proof (induction t arbitrary: bs)
  case Nil
  then show ?case by simp
next
  case (Cons c t)
  from Cons.prems(2) obtain b r where
    b: "utf8_encode_cp c = Inr b" and r: "utf8_encode t = Inr r" and bs: "bs = b @ r"
    by (auto simp: bind_eq_Inr)
  from Cons.prems(1) have c: "c < 0x110000" and t: "is_text t" by (simp_all add: is_text_def)
  from encode_cp_bytes [OF c b] Cons.IH [OF t r] bs show ?case by auto
qed

subsection \<open>Digit strings and bytes\<close>

lemma be_bytes_snoc_value: "b < 256 \<Longrightarrow> be_bytes (Suc k) (v * 256 + b) = be_bytes k v @ [b]"
  by simp

lemma bits_value_byte_snoc:
  "length a = 8 \<Longrightarrow> bits_value (x @ a) = bits_value x * 256 + bits_value a"
  by (simp add: bits_value_append)

lemma bits_value_byte_less: "length a = 8 \<Longrightarrow> bits_value a < 256"
  using bits_value_less [of a] by simp

lemma bytes_of_bits_Nil [simp]: "bytes_of_bits [] = []"
  by (subst bytes_of_bits.simps) simp

lemma bytes_of_bits_byte:
  "length a = 8 \<Longrightarrow> bytes_of_bits (a @ s) = bits_value a # bytes_of_bits s"
  by (subst bytes_of_bits.simps) simp

lemma bytes_of_bits_append:
  "length x = 8 * k \<Longrightarrow> bytes_of_bits (x @ y) = bytes_of_bits x @ bytes_of_bits y"
proof (induction k arbitrary: x)
  case 0
  then show ?case by simp
next
  case (Suc k)
  let ?a = "take 8 x" and ?r = "drop 8 x"
  from Suc.prems have a: "length ?a = 8" and r: "length ?r = 8 * k" by simp_all
  have "x @ y = ?a @ (?r @ y)"
    by (simp only: append_assoc [symmetric] append_take_drop_id)
  then have "bytes_of_bits (x @ y) = bytes_of_bits (?a @ (?r @ y))"
    by (rule arg_cong)
  also have "\<dots> = bits_value ?a # bytes_of_bits (?r @ y)" by (rule bytes_of_bits_byte [OF a])
  finally have 1: "bytes_of_bits (x @ y) = bits_value ?a # bytes_of_bits ?r @ bytes_of_bits y"
    by (simp add: Suc.IH [OF r])
  have "bytes_of_bits (?a @ ?r) = bits_value ?a # bytes_of_bits ?r"
    by (rule bytes_of_bits_byte [OF a])
  then have 2: "bytes_of_bits x = bits_value ?a # bytes_of_bits ?r"
    by (simp only: append_take_drop_id)
  from 1 2 show ?case by simp
qed

lemma be_bytes_bits:
  "length x = 8 * k \<Longrightarrow> be_bytes k (bits_value x) = bytes_of_bits x"
proof (induction k arbitrary: x)
  case 0
  then show ?case by simp
next
  case (Suc k)
  let ?h = "take (8 * k) x" and ?a = "drop (8 * k) x"
  from Suc.prems have h: "length ?h = 8 * k" and a: "length ?a = 8" by simp_all
  have x: "?h @ ?a = x" by (rule append_take_drop_id)
  have "bits_value (?h @ ?a) = bits_value ?h * 256 + bits_value ?a"
    by (rule bits_value_byte_snoc [OF a])
  then have v: "bits_value x = bits_value ?h * 256 + bits_value ?a"
    by (simp only: x)
  have "be_bytes (Suc k) (bits_value ?h * 256 + bits_value ?a) =
      be_bytes k (bits_value ?h) @ [bits_value ?a]"
    by (rule be_bytes_snoc_value [OF bits_value_byte_less [OF a]])
  then have 1: "be_bytes (Suc k) (bits_value x) = bytes_of_bits ?h @ [bits_value ?a]"
    by (simp only: v Suc.IH [OF h])
  have 2: "bytes_of_bits ?a = [bits_value ?a]"
    using bytes_of_bits_byte [OF a, of "[]"] by simp
  have "bytes_of_bits (?h @ ?a) = bytes_of_bits ?h @ bytes_of_bits ?a"
    by (rule bytes_of_bits_append [OF h])
  then have 3: "bytes_of_bits x = bytes_of_bits ?h @ [bits_value ?a]"
    by (simp only: x 2)
  from 1 3 show ?case by simp
qed

lemma bytes_of_bits_fixed:
  "\<forall>b \<in> set bs. b < 256 \<Longrightarrow> bytes_of_bits (concat (map (fixed_bits 8) bs)) = bs"
proof (induction bs)
  case Nil
  show ?case by simp
next
  case (Cons b bs)
  then have b: "b < 256" and IH: "bytes_of_bits (concat (map (fixed_bits 8) bs)) = bs"
    by simp_all
  have "bits_value (fixed_bits 8 b) = b"
    using b by (simp add: bits_value_fixed_bits del: fixed_bits.simps)
  then show ?case
    using bytes_of_bits_byte [of "fixed_bits 8 b" "concat (map (fixed_bits 8) bs)"] IH
    by (simp del: fixed_bits.simps)
qed

lemma length_concat_fixed: "length (concat (map (fixed_bits 8) bs)) = 8 * length bs"
  by (induction bs) (simp_all del: fixed_bits.simps)

lemma is_bit_concat_fixed: "list_all is_bit (concat (map (fixed_bits 8) bs))"
  by (induction bs) (simp_all del: fixed_bits.simps)

lemma power_256: "(256::nat) ^ k = 2 ^ (8 * k)"
proof -
  have "(256::nat) = 2 ^ 8" by simp
  then show ?thesis by (simp only: power_mult)
qed

subsection \<open>Text to bits and back\<close>

lemma bits_value_zero_iff:
  "list_all is_bit x \<Longrightarrow> bits_value x = 0 \<longleftrightarrow> (\<forall>c \<in> set x. c = CHR ''0'')"
proof (induction x rule: rev_induct)
  case Nil
  show ?case by simp
next
  case (snoc c x)
  then have c: "is_bit c" and IH: "bits_value x = 0 \<longleftrightarrow> (\<forall>c \<in> set x. c = CHR ''0'')"
    by simp_all
  from c show ?case
    by (auto simp: bits_value_snoc IH is_bit_def)
qed

lemma utf8_scalar_error: "utf8_scalar b0 trail = Inl e \<Longrightarrow> e = UnicodeDecodeError"
  by (auto simp: utf8_scalar_def Let_def split: if_splits list.splits)

lemma utf8_decode_error: "utf8_decode bs = Inl e \<Longrightarrow> e = UnicodeDecodeError"
proof (induction bs rule: utf8_decode.induct)
  case 1
  then show ?case by simp
next
  case (2 b0 bs)
  show ?case
  proof (cases "utf8_width b0 = 0 \<or> length bs < utf8_width b0 - 1")
    case True
    with "2.prems" show ?thesis by (auto simp: Let_def)
  next
    case False
    show ?thesis
    proof (cases "utf8_scalar b0 (take (utf8_width b0 - 1) bs)")
      case (Inl e')
      with False "2.prems" utf8_scalar_error [OF Inl] show ?thesis by (simp add: Let_def)
    next
      case (Inr c)
      with False "2.prems" have "\<exists>e'. utf8_decode (drop (utf8_width b0 - 1) bs) = Inl e' \<and> e' = e"
        by (cases "utf8_decode (drop (utf8_width b0 - 1) bs)") (simp_all add: Let_def)
      then obtain "utf8_decode (drop (utf8_width b0 - 1) bs) = Inl e" by blast
      from "2.IH" [OF refl False this] show ?thesis .
    qed
  qed
qed

lemma binary_conversion_text_bits:
  assumes bits: "list_all is_bit bits"
  shows "binary_conversion_text bits =
     (if bits = [] then Inl ValueError
      else if \<exists>c \<in> set (take (length bits mod 8) bits). c \<noteq> CHR ''0'' then Inl OverflowError
      else utf8_decode (bytes_of_bits (drop (length bits mod 8) bits)))"
proof (cases "bits = []")
  case True
  then show ?thesis by (simp add: binary_conversion_text_def int_base2_def)
next
  case False
  let ?r = "length bits mod 8" and ?k = "length bits div 8"
  let ?h = "take ?r bits" and ?x = "drop ?r bits"
  have lx: "length ?x = 8 * ?k"
    by (simp add: minus_mod_eq_mult_div)
  have hb: "list_all is_bit ?h"
    using bits by (auto simp: list_all_iff dest: in_set_takeD)
  have "bits_value (?h @ ?x) = bits_value ?h * 2 ^ length ?x + bits_value ?x"
    by (rule bits_value_append)
  then have v: "bits_value bits = bits_value ?h * 256 ^ ?k + bits_value ?x"
    by (simp only: append_take_drop_id lx power_256)
  have xl: "bits_value ?x < 256 ^ ?k"
    using bits_value_less [of ?x] by (simp only: lx power_256)
  have ib: "int_base2 bits = Inr (bits_value bits)"
    using False bits by (simp add: int_base2_def)
  show ?thesis
  proof (cases "\<exists>c \<in> set ?h. c \<noteq> CHR ''0''")
    case True
    then have "bits_value ?h \<noteq> 0" using bits_value_zero_iff [OF hb] by blast
    then have m: "(256::nat) ^ ?k \<le> bits_value ?h * 256 ^ ?k"
      by (cases "bits_value ?h") simp_all
    have "256 ^ ?k \<le> bits_value bits" using v m by linarith
    then have "to_bytes (bits_value bits) ?k = Inl OverflowError"
      by (simp add: to_bytes_def)
    with True False ib show ?thesis by (simp add: binary_conversion_text_def)
  next
    case zero: False
    then have "bits_value ?h = 0" using bits_value_zero_iff [OF hb] by blast
    then have vx: "bits_value bits = bits_value ?x" using v by simp
    have "to_bytes (bits_value bits) ?k = Inr (be_bytes ?k (bits_value ?x))"
      using xl by (simp add: to_bytes_def vx)
    also have "be_bytes ?k (bits_value ?x) = bytes_of_bits ?x" by (rule be_bytes_bits [OF lx])
    finally show ?thesis using zero False ib by (simp add: binary_conversion_text_def)
  qed
qed

lemma binary_conversion_binary_bits:
  assumes t: "is_text t" and enc: "binary_conversion_binary t = Inr bits"
  shows "\<exists>bs. utf8_encode t = Inr bs \<and> (\<forall>b \<in> set bs. b < 256) \<and> (t \<noteq> [] \<longrightarrow> bs \<noteq> []) \<and>
           bits = concat (map (fixed_bits 8) bs)"
proof -
  from enc obtain bs where bs: "utf8_encode t = Inr bs"
    and bits: "bits = concat (map (\<lambda>byte. zfill 8 (bin_digits byte)) bs)"
    by (auto simp: binary_conversion_binary_def bind_eq_Inr)
  note eb = encode_bytes [OF t bs]
  have "map (\<lambda>byte. zfill 8 (bin_digits byte)) bs = map (fixed_bits 8) bs"
  proof (rule map_cong [OF refl])
    fix b assume "b \<in> set bs"
    with eb have "b < 2 ^ 8" by simp
    then show "zfill 8 (bin_digits b) = fixed_bits 8 b" by (rule zfill_bin_digits) simp
  qed
  with bits have "bits = concat (map (fixed_bits 8) bs)" by simp
  with bs eb show ?thesis by blast
qed

lemma binary_conversion_roundtrip:
  assumes t: "is_text t" and ne: "t \<noteq> []" and enc: "binary_conversion_binary t = Inr bits"
  shows "binary_conversion_text bits = Inr t"
proof -
  from binary_conversion_binary_bits [OF t enc] ne obtain bs where
    bs: "utf8_encode t = Inr bs" and bytes: "\<forall>b \<in> set bs. b < 256" and bne: "bs \<noteq> []"
    and bits: "bits = concat (map (fixed_bits 8) bs)"
    by blast
  have len: "length bits = 8 * length bs" unfolding bits by (rule length_concat_fixed)
  with bne have nonempty: "bits \<noteq> []" by auto
  have isb: "list_all is_bit bits" unfolding bits by (rule is_bit_concat_fixed)
  have r: "length bits mod 8 = 0" using len by simp
  have pack: "bytes_of_bits bits = bs" unfolding bits by (rule bytes_of_bits_fixed [OF bytes])
  show ?thesis
    using binary_conversion_text_bits [OF isb] nonempty decode_encode [OF t bs]
    by (simp add: r pack)
qed

text \<open>
  C8.  Decoding the encoding gives the text back for every non-empty text that UTF-8 can
  encode (\<open>binary_conversion_roundtrip\<close>).  For the empty text it does not: the encoding
  is the empty digit string, and decoding the empty digit string raises \<^verbatim>\<open>ValueError\<close>,
  because \<^verbatim>\<open>int('', 2)\<close> does.
\<close>

theorem binary_conversion_empty_text:
  "binary_conversion_binary [] = Inr [] \<and> binary_conversion_text [] = Inl ValueError"
  by (simp add: binary_conversion_binary_def binary_conversion_text_def int_base2_def)




end
